theory Spec2Isabelle
  imports Complex_Main
begin

section \<open>Python values, dictionaries and errors\<close>

text \<open>
  The orchestrator \<open>run_dypolychord\<close> of \<open>dyPolyChord/run_dynamic_ns.py\<close> works on
  Python dictionaries of settings. A settings value is an int, a bool, a string or the
  live-point schedule \<open>nlives\<close> (a dictionary from a log-likelihood threshold to a
  live-point count, kept as an association list). Thresholds are floats in the source;
  the orchestrator never computes with them, and they are reals here.
\<close>

datatype pyval = PInt int | PBool bool | PStr string | PDict "(real \<times> int) list"

type_synonym pydict = "string \<rightharpoonup> pyval"

datatype error =
    TypeError | AssertionError | KeyError | IndexError | ValueError
  | UnboundLocalError | ZeroDivisionError | OverflowError
  | FileNotFoundError | IsADirectoryError | SameFileError
  | ExternalError nat

text \<open>Truth value of a Python object, as \<open>not x\<close> and \<open>assert\<close> read it.\<close>

fun truthy :: "pyval \<Rightarrow> bool" where
  "truthy (PInt i) = (i \<noteq> 0)"
| "truthy (PBool b) = b"
| "truthy (PStr s) = (s \<noteq> [])"
| "truthy (PDict d) = (d \<noteq> [])"

text \<open>
  Arithmetic and comparison with an int accept an int or a bool (\<open>True\<close> is 1) and
  raise \<open>TypeError\<close> on a string or a dictionary; string concatenation and
  \<open>os.path.join\<close> accept a string only.
\<close>

fun int_of_pyval :: "pyval \<Rightarrow> error + int" where
  "int_of_pyval (PInt i) = Inr i"
| "int_of_pyval (PBool b) = Inr (if b then 1 else 0)"
| "int_of_pyval (PStr s) = Inl TypeError"
| "int_of_pyval (PDict d) = Inl TypeError"

fun str_of_pyval :: "pyval \<Rightarrow> error + string" where
  "str_of_pyval (PStr s) = Inr s"
| "str_of_pyval (PInt i) = Inl TypeError"
| "str_of_pyval (PBool b) = Inl TypeError"
| "str_of_pyval (PDict d) = Inl TypeError"

text \<open>Python's \<open>str\<close> of an int: decimal digits, with a minus sign when negative.\<close>

definition digit_char :: "nat \<Rightarrow> char" where
  "digit_char d = ''0123456789'' ! d"

fun str_nat :: "nat \<Rightarrow> string" where
  "str_nat n = (if n < 10 then [digit_char n] else str_nat (n div 10) @ [digit_char (n mod 10)])"

definition str_int :: "int \<Rightarrow> string" where
  "str_int i = (if i < 0 then CHR ''-'' # str_nat (nat (- i)) else str_nat (nat i))"

text \<open>\<open>os.path.join\<close> of two components (posixpath).\<close>

definition path_join :: "string \<Rightarrow> string \<Rightarrow> string" where
  "path_join a b =
     (if b \<noteq> [] \<and> hd b = CHR ''/'' then b
      else if a = [] \<or> last a = CHR ''/'' then a @ b
      else a @ ''/'' @ b)"

section \<open>The file system\<close>

text \<open>
  A path holds a regular file (with its contents) or a directory, or nothing.
  \<open>os.remove\<close> and \<open>shutil.copyfile\<close> raise as on Linux: a missing source or target
  of a removal is \<open>FileNotFoundError\<close>, a directory where a file is expected is
  \<open>IsADirectoryError\<close>, a copy of a file onto itself is \<open>SameFileError\<close>.
\<close>

datatype node = File string | Directory

type_synonym fsys = "string \<rightharpoonup> node"

definition os_remove :: "string \<Rightarrow> fsys \<Rightarrow> error + fsys" where
  "os_remove path files =
     (case files path of
        None \<Rightarrow> Inl FileNotFoundError
      | Some Directory \<Rightarrow> Inl IsADirectoryError
      | Some (File c) \<Rightarrow> Inr (files(path := None)))"

definition copyfile :: "string \<Rightarrow> string \<Rightarrow> fsys \<Rightarrow> error + fsys" where
  "copyfile src dst files =
     (case files src of
        None \<Rightarrow> Inl FileNotFoundError
      | Some n \<Rightarrow>
          if src = dst then Inl SameFileError
          else (case n of
            Directory \<Rightarrow> Inl IsADirectoryError
          | File c \<Rightarrow>
              (case files dst of
                 Some Directory \<Rightarrow> Inl IsADirectoryError
               | _ \<Rightarrow> Inr (files(dst \<mapsto> File c)))))"

section \<open>External collaborators\<close>

text \<open>
  The sampler \<open>run_func\<close>, the readers of \<open>nestcheck.data_processing\<close> and
  \<open>dyPolyChord.nlive_allocation.allocate\<close> are not part of the orchestrator: they are
  parameters. The sampler receives the settings dictionary and acts on the files only;
  the readers read the files; each of them may raise.
\<close>

text \<open>
  A Python float is a float64, kept by its bit fields: the sign, the biased exponent (below
  2048) and the fraction (below \<open>2 ^ 52\<close>). A number is an int or a float.
\<close>

datatype pyfloat = Float64 bool nat nat

datatype number = IntNum int | FloatNum pyfloat

record stats =
  ndead :: int
  nlike :: int

record ns_run =
  logl :: "real list"

record dyn_info =
  peak_start_ind :: int
  nlives_dict :: "(real \<times> int) list"

datatype smoothing = Savgol_nearest int int | Supplied "real list \<Rightarrow> real list"

text \<open>
  Two more parameters stand for arithmetic that the orchestrator leaves to Python's floats
  and to numpy, and of which nothing is assumed. The orchestrator computes one float, the
  product of an array length and the quotient of two ints (line 106): \<open>float_quotient\<close>
  is the float that \<open>a / b\<close> gives when it gives one, \<open>float_product\<close> the float that
  \<open>n * q\<close> gives for an array length \<open>n\<close> (below \<open>2 ^ 63\<close>) and a float \<open>q\<close>.
  \<open>wide_where\<close> is the result of \<open>np.where(np.asarray(steps) - 1 < peak)[0]\<close> when a
  count or the peak lies beyond the range of int64 (see \<open>where_below\<close>).
\<close>

record env =
  run_func :: "pydict \<Rightarrow> fsys \<Rightarrow> (error + unit) \<times> fsys"
  process_polychord_stats :: "string \<Rightarrow> string \<Rightarrow> fsys \<Rightarrow> error + stats"
  process_polychord_run :: "string \<Rightarrow> string \<Rightarrow> fsys \<Rightarrow> error + ns_run"
  allocate :: "ns_run \<Rightarrow> number \<Rightarrow> real \<Rightarrow> smoothing \<Rightarrow> error + dyn_info"
  float_quotient :: "int \<Rightarrow> int \<Rightarrow> pyfloat"
  float_product :: "nat \<Rightarrow> pyfloat \<Rightarrow> pyfloat"
  wide_where :: "int list \<Rightarrow> int \<Rightarrow> nat list"

section \<open>The world: dictionary objects, files, the log of sampler calls\<close>

text \<open>
  Dictionaries are objects: \<open>heap\<close> maps an address to the dictionary stored there,
  \<open>next_addr\<close> is the next unused address. \<open>invocations\<close> logs every call of the
  sampler: the address of the dictionary it was given and the contents at the time of the
  call. \<open>saved\<close> is what \<open>pickle_save\<close> has written (the allocation result and, after
  a resume, the dead-point count and likelihood count at the resume).
\<close>

record world =
  heap :: "nat \<Rightarrow> pydict"
  next_addr :: nat
  files :: fsys
  invocations :: "(nat \<times> pydict) list"
  saved :: "string \<rightharpoonup> dyn_info \<times> (int \<times> int) option"

type_synonym 'a prog = "world \<Rightarrow> (error + 'a) \<times> world"

definition ok :: "'a \<Rightarrow> 'a prog" where
  "ok x = (\<lambda>w. (Inr x, w))"

definition raise :: "error \<Rightarrow> 'a prog" where
  "raise e = (\<lambda>w. (Inl e, w))"

definition seq :: "'a prog \<Rightarrow> ('a \<Rightarrow> 'b prog) \<Rightarrow> 'b prog" where
  "seq m f = (\<lambda>w. case m w of (Inl e, w') \<Rightarrow> (Inl e, w') | (Inr x, w') \<Rightarrow> f x w')"

definition liftE :: "error + 'a \<Rightarrow> 'a prog" where
  "liftE r = (case r of Inl e \<Rightarrow> raise e | Inr x \<Rightarrow> ok x)"

definition getitem :: "nat \<Rightarrow> string \<Rightarrow> pyval prog" where
  "getitem a k = (\<lambda>w. case heap w a k of None \<Rightarrow> (Inl KeyError, w) | Some v \<Rightarrow> (Inr v, w))"

definition setitem :: "nat \<Rightarrow> string \<Rightarrow> pyval \<Rightarrow> unit prog" where
  "setitem a k v = (\<lambda>w. (Inr (), w\<lparr>heap := (heap w)(a := (heap w a)(k \<mapsto> v))\<rparr>))"

definition get_int :: "nat \<Rightarrow> string \<Rightarrow> int prog" where
  "get_int a k = seq (getitem a k) (\<lambda>v. liftE (int_of_pyval v))"

definition get_str :: "nat \<Rightarrow> string \<Rightarrow> string prog" where
  "get_str a k = seq (getitem a k) (\<lambda>v. liftE (str_of_pyval v))"

text \<open>\<open>copy.deepcopy\<close> of a dictionary: a new object with the same contents.\<close>

definition deepcopy :: "nat \<Rightarrow> nat prog" where
  "deepcopy a = (\<lambda>w. (Inr (next_addr w),
     w\<lparr>heap := (heap w)(next_addr w := heap w a), next_addr := Suc (next_addr w)\<rparr>))"

definition call_run_func :: "env \<Rightarrow> nat \<Rightarrow> unit prog" where
  "call_run_func E a = (\<lambda>w.
     case run_func E (heap w a) (files w) of
       (r, files') \<Rightarrow> (r, w\<lparr>files := files', invocations := invocations w @ [(a, heap w a)]\<rparr>))"

definition with_files :: "(fsys \<Rightarrow> error + 'a) \<Rightarrow> 'a prog" where
  "with_files f = (\<lambda>w. liftE (f (files w)) w)"

definition file_op :: "(fsys \<Rightarrow> error + fsys) \<Rightarrow> unit prog" where
  "file_op f = (\<lambda>w. case f (files w) of Inl e \<Rightarrow> (Inl e, w) | Inr files' \<Rightarrow> (Inr (), w\<lparr>files := files'\<rparr>))"

definition pickle_save :: "string \<Rightarrow> dyn_info \<times> (int \<times> int) option \<Rightarrow> unit prog" where
  "pickle_save name x = (\<lambda>w. (Inr (), w\<lparr>saved := (saved w)(name \<mapsto> x)\<rparr>))"

section \<open>run\_dypolychord\<close>

subsection \<open>Defaults and keyword arguments (lines 30 to 63)\<close>

definition default_settings :: "(string \<times> pyval) list" where
  "default_settings =
     [(''nlive'', PInt 100),
      (''num_repeats'', PInt 20),
      (''file_root'', PStr ''temp''),
      (''base_dir'', PStr ''chains''),
      (''seed'', PInt (- 1)),
      (''do_clustering'', PBool True),
      (''max_ndead'', PInt (- 1)),
      (''write_dead'', PBool True),
      (''write_stats'', PBool True),
      (''write_live'', PBool False),
      (''write_paramnames'', PBool False),
      (''equals'', PBool False),
      (''cluster_posteriors'', PBool False),
      (''nlives'', PDict []),
      (''write_resume'', PBool False),
      (''read_resume'', PBool False)]"

text \<open>
  \<open>for key, value in default_settings.items(): if key not in settings_dict_in:
  settings_dict_in[key] = value\<close>, on the contents of the caller's dictionary.
\<close>

fun set_defaults :: "(string \<times> pyval) list \<Rightarrow> pydict \<Rightarrow> pydict" where
  "set_defaults [] d = d"
| "set_defaults ((key, v) # rest) d =
     set_defaults rest (case d key of None \<Rightarrow> d(key \<mapsto> v) | Some u \<Rightarrow> d)"

definition apply_defaults :: "nat \<Rightarrow> unit prog" where
  "apply_defaults a = (\<lambda>w. (Inr (), w\<lparr>heap := (heap w)(a := set_defaults default_settings (heap w a))\<rparr>))"

text \<open>
  The keyword arguments: the six options the function pops, each present or not, and
  the names of all other keyword arguments given.
\<close>

record kwargs =
  kw_ninit :: "int option"
  kw_init_step :: "int option"
  kw_nlive_const :: "int option"
  kw_print_time :: "bool option"
  kw_seed_increment :: "int option"
  kw_smoothing_filter :: "(real list \<Rightarrow> real list) option"
  kw_other :: "string list"

text \<open>The local variables fixed by the first part of the function.\<close>

record locals =
  ninit :: int
  init_step :: int
  nlive_const :: pyval
  print_time :: bool
  seed_increment :: int
  smoothing_filter :: smoothing
  root :: string

definition prelude :: "nat \<Rightarrow> kwargs \<Rightarrow> locals prog" where
  "prelude a_in kw =
     seq (apply_defaults a_in) (\<lambda>_.
     seq (getitem a_in ''nlive'') (\<lambda>nlive_in.
       let n = (case kw_ninit kw of None \<Rightarrow> 10 | Some x \<Rightarrow> x);
           st = (case kw_init_step kw of None \<Rightarrow> n | Some x \<Rightarrow> x);
           nc = (case kw_nlive_const kw of None \<Rightarrow> nlive_in | Some x \<Rightarrow> PInt x);
           pt = (case kw_print_time kw of None \<Rightarrow> False | Some x \<Rightarrow> x);
           si = (case kw_seed_increment kw of None \<Rightarrow> 100 | Some x \<Rightarrow> x);
           sf = (case kw_smoothing_filter kw of None \<Rightarrow> Savgol_nearest (1 + 2 * n) 3
                 | Some x \<Rightarrow> Supplied x)
       in
       if kw_other kw \<noteq> [] then raise TypeError
       else
     seq (getitem a_in ''nlives'') (\<lambda>nlives_in.
       if truthy nlives_in then raise AssertionError else
     seq (getitem a_in ''read_resume'') (\<lambda>rr_in.
       if truthy rr_in then raise AssertionError else
     seq (get_str a_in ''base_dir'') (\<lambda>bd.
     seq (get_str a_in ''file_root'') (\<lambda>fr.
       ok \<lparr>ninit = n, init_step = st, nlive_const = nc, print_time = pt,
           seed_increment = si, smoothing_filter = sf, root = path_join bd fr\<rparr>))))))"

subsection \<open>Step 1: the initial run (lines 66 to 95)\<close>

text \<open>
  Programs that may not return: \<open>None\<close> is a loop that never ends. \<open>total\<close> embeds a
  program that always returns, \<open>seqo\<close> sequences as \<open>seq\<close> does.
\<close>

type_synonym 'a oprog = "world \<Rightarrow> ((error + 'a) \<times> world) option"

definition total :: "'a prog \<Rightarrow> 'a oprog" where
  "total m = (\<lambda>w. Some (m w))"

definition seqo :: "'a oprog \<Rightarrow> ('a \<Rightarrow> 'b oprog) \<Rightarrow> 'b oprog" where
  "seqo m f = (\<lambda>w. case m w of None \<Rightarrow> None
                  | Some (Inl e, w') \<Rightarrow> Some (Inl e, w')
                  | Some (Inr x, w') \<Rightarrow> f x w')"

text \<open>The variables of the \<open>while\<close> loop: \<open>step_ndead\<close> and \<open>outputs_at_resumes\<close>.\<close>

record loop_state =
  step_ndead :: "int list"
  outputs_at_resumes :: "int \<rightharpoonup> stats"

definition step_resume_path :: "string \<Rightarrow> int \<Rightarrow> string" where
  "step_resume_path r n = r @ ''_init_'' @ str_int n @ ''.resume''"

text \<open>
  One pass through the body of \<open>while add_points\<close> (lines 78 to 94), on the dictionary
  object \<open>sd\<close>, in three parts: the settings of the increment (lines 78 to 82), the call
  of the sampler (line 83), and the reading of its output with the test for \<open>break\<close> and
  the copy of the resume file (lines 84 to 94). The flag returned is True when the pass
  ends in \<open>break\<close>.
\<close>

definition step_settings :: "locals \<Rightarrow> nat \<Rightarrow> loop_state \<Rightarrow> unit prog" where
  "step_settings L sd st =
     seq (if length (step_ndead st) = 1 then setitem sd ''read_resume'' (PBool True) else ok ()) (\<lambda>_.
     seq (setitem sd ''max_ndead'' (PInt ((int (length (step_ndead st)) + 1) * init_step L))) (\<lambda>_.
     seq (get_int sd ''seed'') (\<lambda>s.
       if s \<ge> 0 then setitem sd ''seed'' (PInt (s + seed_increment L)) else ok ())))"

text \<open>
  Lines 89 and 90: \<open>len(step_ndead) >= 2\<close> and \<open>step_ndead[-1] == step_ndead[-2]\<close>.
\<close>

definition same_as_previous :: "int list \<Rightarrow> bool" where
  "same_as_previous steps =
     (length steps \<ge> 2 \<and> steps ! (length steps - 1) = steps ! (length steps - 2))"

definition step_output :: "env \<Rightarrow> locals \<Rightarrow> nat \<Rightarrow> loop_state \<Rightarrow> (bool \<times> loop_state) prog" where
  "step_output E L sd st =
     seq (get_str sd ''file_root'') (\<lambda>fr.
     seq (get_str sd ''base_dir'') (\<lambda>bd.
     seq (with_files (process_polychord_stats E fr bd)) (\<lambda>run_output.
     seq (get_int sd ''nlive'') (\<lambda>nl.
       let outs = (outputs_at_resumes st)(ndead run_output \<mapsto> run_output);
           steps = step_ndead st @ [ndead run_output - nl];
           st' = \<lparr>step_ndead = steps, outputs_at_resumes = outs\<rparr>
       in
       if same_as_previous steps
       then ok (True, st')
       else
     seq (file_op (copyfile (root L @ ''_init.resume'') (step_resume_path (root L) (last steps)))) (\<lambda>_.
       ok (False, st'))))))"

definition phaseA_step :: "env \<Rightarrow> locals \<Rightarrow> nat \<Rightarrow> loop_state \<Rightarrow> (bool \<times> loop_state) prog" where
  "phaseA_step E L sd st =
     seq (step_settings L sd st) (\<lambda>_.
     seq (call_run_func E sd) (\<lambda>_.
       step_output E L sd st))"

partial_function (option) phaseA_loop ::
  "env \<Rightarrow> locals \<Rightarrow> nat \<Rightarrow> loop_state \<Rightarrow> world \<Rightarrow> ((error + loop_state) \<times> world) option" where
  "phaseA_loop E L sd st w =
     (case phaseA_step E L sd st w of
        (Inl e, w') \<Rightarrow> Some (Inl e, w')
      | (Inr (brk, st'), w') \<Rightarrow> if brk then Some (Inr st', w') else phaseA_loop E L sd st' w')"

text \<open>Lines 66 to 68: the copy of the caller's dictionary the initial run works on.\<close>

definition initial_copy :: "locals \<Rightarrow> nat \<Rightarrow> nat prog" where
  "initial_copy L a_in =
     seq (deepcopy a_in) (\<lambda>sd.
     seq (get_str a_in ''file_root'') (\<lambda>fr.
     seq (setitem sd ''file_root'' (PStr (fr @ ''_init''))) (\<lambda>_.
     seq (setitem sd ''nlive'' (PInt (ninit L))) (\<lambda>_.
       ok sd))))"

text \<open>
  The initial run returns the dictionary object it used and, when \<open>dynamic_goal\<close> is
  not 0, the loop variables (they are unbound otherwise).
\<close>

definition initial_run :: "env \<Rightarrow> locals \<Rightarrow> nat \<Rightarrow> real \<Rightarrow> (nat \<times> loop_state option) oprog" where
  "initial_run E L a_in dynamic_goal =
     seqo (total (initial_copy L a_in)) (\<lambda>sd.
       if dynamic_goal = 0 then total (seq (call_run_func E sd) (\<lambda>_. ok (sd, None)))
       else
     seqo (total (seq (setitem sd ''write_resume'' (PBool True)) (\<lambda>_.
                       setitem sd ''read_resume'' (PBool False)))) (\<lambda>_.
     seqo (phaseA_loop E L sd \<lparr>step_ndead = [], outputs_at_resumes = Map.empty\<rparr>) (\<lambda>st.
       total (ok (sd, Some st)))))"

subsection \<open>Step 2: the allocation of live points (lines 98 to 125)\<close>

text \<open>
  Lines 112 to 117. \<open>np.asarray(step_ndead)\<close> is an array of int64 when every count lies
  in the range of int64 (numpy on a 64-bit Linux or macOS). \<open>resume_steps\<close>, the array
  minus 1, is then computed in int64, where \<open>- 2 ** 63 - 1\<close> wraps to \<open>2 ** 63 - 1\<close>,
  and its comparison with a peak index in the range of int64 is that of the integers. For
  counts or a peak index beyond this range numpy takes another type for the array or for
  the comparison (uint64, float64 or Python objects), by rules that depend on the values
  and on its version: the indices found are then those that the parameter \<open>wide_where\<close>
  gives. \<open>resume_ndead\<close> is the element of \<open>step_ndead\<close> at the last of the indices
  found; an empty selection is an \<open>IndexError\<close>, and so is an index that is not one of
  the list.
\<close>

definition int64 :: "int \<Rightarrow> bool" where
  "int64 x = (- (2 ^ 63) \<le> x \<and> x < 2 ^ 63)"

definition wrap64 :: "int \<Rightarrow> int" where
  "wrap64 x = (x + 2 ^ 63) mod 2 ^ 64 - 2 ^ 63"

definition resume_steps :: "int list \<Rightarrow> int list" where
  "resume_steps steps = map (\<lambda>n. wrap64 (n - 1)) steps"

definition where_below :: "env \<Rightarrow> int list \<Rightarrow> int \<Rightarrow> nat list" where
  "where_below E steps peak =
     (if list_all int64 steps \<and> int64 peak
      then filter (\<lambda>i. resume_steps steps ! i < peak) [0..<length steps]
      else wide_where E steps peak)"

definition select_resume :: "env \<Rightarrow> int list \<Rightarrow> int \<Rightarrow> error + int" where
  "select_resume E steps peak =
     (let idxs = where_below E steps peak
      in if idxs = [] then Inl IndexError
         else if last idxs < length steps then Inr (steps ! last idxs)
         else Inl IndexError)"

fun remove_all :: "string list \<Rightarrow> unit prog" where
  "remove_all [] = ok ()"
| "remove_all (p # ps) = seq (file_op (os_remove p)) (\<lambda>_. remove_all ps)"

text \<open>
  Lines 124 and 125: \<open>for snd in set(step_ndead): os.remove(...)\<close>. Python leaves the
  order of a set open; the order here is that of \<open>remdups\<close>.
\<close>

definition remove_step_files :: "string \<Rightarrow> int list \<Rightarrow> unit prog" where
  "remove_step_files r steps = remove_all (map (step_resume_path r) (remdups steps))"

text \<open>
  The true division \<open>a / b\<close> of two ints (Python 3): \<open>ZeroDivisionError\<close> when \<open>b\<close> is
  0, \<open>OverflowError\<close> when the quotient is too large for a float, and otherwise the float
  nearest to the quotient. The quotient is too large when, rounded to the nearest float64
  with ties to the even fraction, it would reach \<open>2 ** 1024\<close>: that is from
  \<open>2 ** 1024 - 2 ** 970\<close> on, half way between the largest float and \<open>2 ** 1024\<close>.
\<close>

definition true_divide :: "env \<Rightarrow> int \<Rightarrow> int \<Rightarrow> error + pyfloat" where
  "true_divide E a b =
     (if b = 0 then Inl ZeroDivisionError
      else if (2 ^ 1024 - 2 ^ 970) * \<bar>b\<bar> \<le> \<bar>a\<bar> then Inl OverflowError
      else Inr (float_quotient E a b))"

text \<open>
  Lines 101 to 107: the total number of samples, the int \<open>max_ndead\<close> or the float
  \<open>init_run['logl'].shape[0] * (nlive_const / ninit)\<close>. Line 106 is evaluated before the
  assertion of line 107, the quotient first.
\<close>

definition sample_total :: "env \<Rightarrow> locals \<Rightarrow> nat \<Rightarrow> ns_run \<Rightarrow> number prog" where
  "sample_total E L a_in init_run =
     seq (get_int a_in ''max_ndead'') (\<lambda>mx.
       if mx > 0 then
         (if mx > int (length (logl init_run)) then ok (IntNum mx) else raise AssertionError)
       else
     seq (liftE (int_of_pyval (nlive_const L))) (\<lambda>nc.
     seq (liftE (true_divide E nc (ninit L))) (\<lambda>q.
       if nc > ninit L
         then ok (FloatNum (float_product E (length (logl init_run)) q))
         else raise AssertionError)))"

text \<open>
  Lines 110 to 120: staging the resume file of the dynamic run; the result is
  \<open>resume_ndead\<close> when it is bound.
\<close>

definition stage_resume :: "env \<Rightarrow> locals \<Rightarrow> loop_state option \<Rightarrow> dyn_info \<Rightarrow> int option prog" where
  "stage_resume E L sto info =
     (if peak_start_ind info \<noteq> 0 then
        (case sto of
           None \<Rightarrow> raise UnboundLocalError
         | Some st \<Rightarrow>
             seq (liftE (select_resume E (step_ndead st) (peak_start_ind info))) (\<lambda>resume_ndead.
             seq (file_op (copyfile (step_resume_path (root L) resume_ndead) (root L @ ''_dyn.resume''))) (\<lambda>_.
               ok (Some resume_ndead))))
      else ok None)"

definition allocation ::
  "env \<Rightarrow> locals \<Rightarrow> nat \<Rightarrow> real \<Rightarrow> loop_state option \<Rightarrow> (dyn_info \<times> int option) prog" where
  "allocation E L a_in dynamic_goal sto =
     seq (get_str a_in ''file_root'') (\<lambda>fr.
     seq (get_str a_in ''base_dir'') (\<lambda>bd.
     seq (with_files (process_polychord_run E (fr @ ''_init'') bd)) (\<lambda>init_run.
     seq (sample_total E L a_in init_run) (\<lambda>samp_tot.
     seq (liftE (allocate E init_run samp_tot dynamic_goal (smoothing_filter L))) (\<lambda>info.
     seq (stage_resume E L sto info) (\<lambda>resume.
     seq (if dynamic_goal \<noteq> 0 then
            (case sto of None \<Rightarrow> raise UnboundLocalError
             | Some st \<Rightarrow> remove_step_files (root L) (step_ndead st))
          else ok ()) (\<lambda>_.
       ok (info, resume))))))))"

subsection \<open>Step 3: the dynamic run (lines 128 to 154)\<close>

definition max_values :: "int list \<Rightarrow> error + int" where
  "max_values vs = (case vs of [] \<Rightarrow> Inl ValueError | v # rest \<Rightarrow> Inr (fold max rest v))"

text \<open>
  Lines 128 to 140: the dictionary of the dynamic run, a new copy of the caller's
  dictionary; \<open>sd\<close> is the dictionary object of the initial run, read for its seed.
\<close>

definition dynamic_settings :: "locals \<Rightarrow> nat \<Rightarrow> real \<Rightarrow> nat \<Rightarrow> dyn_info \<Rightarrow> nat prog" where
  "dynamic_settings L a_in dynamic_goal sd info =
     seq (getitem sd ''seed'') (\<lambda>final_init_seed.
     seq (deepcopy a_in) (\<lambda>sd2.
     seq (liftE (int_of_pyval final_init_seed)) (\<lambda>fis.
     seq (if fis \<ge> 0 then
            seq (get_int a_in ''seed'') (\<lambda>s_in.
              if s_in \<ge> 0 then setitem sd2 ''seed'' (PInt (fis + seed_increment L))
              else raise AssertionError)
          else ok ()) (\<lambda>_.
     seq (if dynamic_goal = 0 then
            seq (liftE (max_values (map snd (nlives_dict info)))) (\<lambda>m.
              setitem sd2 ''nlive'' (PInt m))
          else setitem sd2 ''nlive'' (PInt (ninit L))) (\<lambda>_.
     seq (setitem sd2 ''nlives'' (PDict (nlives_dict info))) (\<lambda>_.
     seq (setitem sd2 ''read_resume'' (PBool (peak_start_ind info \<noteq> 0))) (\<lambda>_.
     seq (get_str a_in ''file_root'') (\<lambda>fr.
     seq (setitem sd2 ''file_root'' (PStr (fr @ ''_dyn''))) (\<lambda>_.
       ok sd2)))))))))"

text \<open>Line 141: the one call of the sampler for the dynamic run.\<close>

definition dynamic_run :: "env \<Rightarrow> locals \<Rightarrow> nat \<Rightarrow> real \<Rightarrow> nat \<Rightarrow> dyn_info \<Rightarrow> unit prog" where
  "dynamic_run E L a_in dynamic_goal sd info =
     seq (dynamic_settings L a_in dynamic_goal sd info) (\<lambda>sd2.
       call_run_func E sd2)"

text \<open>The \<open>try: os.remove(...) except FileNotFoundError: pass\<close> of lines 151 to 154.\<close>

definition try_remove :: "string \<Rightarrow> unit prog" where
  "try_remove path = (\<lambda>w.
     case os_remove path (files w) of
       Inl e \<Rightarrow> if e = FileNotFoundError then (Inr (), w) else (Inl e, w)
     | Inr files' \<Rightarrow> (Inr (), w\<lparr>files := files'\<rparr>))"

fun tidy_up :: "string \<Rightarrow> string list \<Rightarrow> unit prog" where
  "tidy_up r [] = ok ()"
| "tidy_up r (extra # rest) = seq (try_remove (r @ ''_'' @ extra @ ''.resume'')) (\<lambda>_. tidy_up r rest)"

text \<open>
  Lines 142 to 154: the resume information, the saved allocation result, the removal of
  the remaining resume files. (The timing report of lines 155 to 161 only prints.)
\<close>

definition finish :: "locals \<Rightarrow> loop_state option \<Rightarrow> dyn_info \<Rightarrow> int option \<Rightarrow> unit prog" where
  "finish L sto info resume =
     seq (if peak_start_ind info \<noteq> 0 then
            (case (resume, sto) of
               (Some resume_ndead, Some st) \<Rightarrow>
                 (case outputs_at_resumes st resume_ndead of
                    None \<Rightarrow> raise KeyError
                  | Some out \<Rightarrow> ok (Some (resume_ndead, nlike out)))
             | _ \<Rightarrow> raise UnboundLocalError)
          else ok None) (\<lambda>resumed.
     seq (pickle_save (root L @ ''_dyn_info'') (info, resumed)) (\<lambda>_.
       tidy_up (root L) [''init'', ''dyn'']))"

subsection \<open>The whole function\<close>

definition run_dypolychord :: "env \<Rightarrow> nat \<Rightarrow> real \<Rightarrow> kwargs \<Rightarrow> unit oprog" where
  "run_dypolychord E a_in dynamic_goal kw =
     seqo (total (prelude a_in kw)) (\<lambda>L.
     seqo (initial_run E L a_in dynamic_goal) (\<lambda>(sd, sto).
       total (
     seq (allocation E L a_in dynamic_goal sto) (\<lambda>(info, resume).
     seq (dynamic_run E L a_in dynamic_goal sd info) (\<lambda>_.
       finish L sto info resume)))))"

section \<open>Notions used in the statements\<close>

text \<open>
  Lines 81 and 82, as a relation between the dictionary before and after: the seed is an
  int \<open>s\<close>, and it is replaced by \<open>s + seed_increment\<close> when \<open>s >= 0\<close> and left as it is
  otherwise.
\<close>

definition seed_stepped :: "locals \<Rightarrow> pydict \<Rightarrow> pydict \<Rightarrow> bool" where
  "seed_stepped L d d' =
     (\<exists>v s. d ''seed'' = Some v \<and> int_of_pyval v = Inr s
          \<and> d' ''seed'' = (if 0 \<le> s then Some (PInt (s + seed_increment L)) else Some v))"

text \<open>
  Lines 78 to 82, as a relation between the dictionary before the pass and the dictionary
  given to the sampler, in the pass that follows \<open>k\<close> completed ones.
\<close>

definition settings_stepped :: "locals \<Rightarrow> nat \<Rightarrow> pydict \<Rightarrow> pydict \<Rightarrow> bool" where
  "settings_stepped L k d d' =
     ((\<forall>key. key \<noteq> ''read_resume'' \<and> key \<noteq> ''max_ndead'' \<and> key \<noteq> ''seed'' \<longrightarrow> d' key = d key)
      \<and> d' ''max_ndead'' = Some (PInt ((int k + 1) * init_step L))
      \<and> d' ''read_resume'' = (if k = 1 then Some (PBool True) else d ''read_resume'')
      \<and> seed_stepped L d d')"

text \<open>No two consecutive entries of a list are equal.\<close>

definition no_repeat :: "int list \<Rightarrow> bool" where
  "no_repeat xs = (\<forall>j. Suc j < length xs \<longrightarrow> xs ! Suc j \<noteq> xs ! j)"

text \<open>
  A program is quiet when it neither creates nor changes a dictionary object and does not
  call the sampler: it may only read, raise, and act on the files and on what is saved.
\<close>

definition quiet :: "'a prog \<Rightarrow> bool" where
  "quiet m = (\<forall>w. heap (snd (m w)) = heap w \<and> next_addr (snd (m w)) = next_addr w
                \<and> invocations (snd (m w)) = invocations w)"

text \<open>
  A step of count \<open>n\<close> is below the peak when its resume step \<open>n - 1\<close> is less than the
  peak index, that is when \<open>n\<close> is at most the peak index; the count \<open>- 2 ** 63\<close>, whose
  resume step wraps, is not.
\<close>

definition below_peak :: "int \<Rightarrow> int \<Rightarrow> bool" where
  "below_peak n peak = (n - 1 < peak \<and> n \<noteq> - (2 ^ 63))"

text \<open>The seed of a dictionary, read as an int the way lines 81 and 130 read it.\<close>

definition seed_of :: "pydict \<Rightarrow> error + int" where
  "seed_of d = (case d ''seed'' of None \<Rightarrow> Inl KeyError | Some v \<Rightarrow> int_of_pyval v)"

section \<open>Concrete collaborators and inputs\<close>

text \<open>
  A sampler that writes a resume file and a statistics file under \<open>chains/\<close>, named
  after \<open>file_root\<close>: capped at 5 dead points it reports 10 dead points, otherwise it
  reports 15 (the run has ended by itself). The reader of the statistics decodes the file;
  the reader of the run returns 15 points; the allocation returns a fixed schedule with
  the given peak. The floats are those of the runs below: \<open>100 / 5\<close> is 20.0 and
  \<open>15 * 20.0\<close> is 300.0; any other quotient or product asked for is of 0 and is 0.0.
  No count goes beyond int64.
\<close>

definition mock_quotient :: "int \<Rightarrow> int \<Rightarrow> pyfloat" where
  "mock_quotient a b = (if a = 100 \<and> b = 5 then Float64 False 1027 (2 ^ 50) else Float64 False 0 0)"

definition mock_product :: "nat \<Rightarrow> pyfloat \<Rightarrow> pyfloat" where
  "mock_product n q =
     (if n = 15 \<and> q = Float64 False 1027 (2 ^ 50) then Float64 False 1031 (11 * 2 ^ 46)
      else Float64 False 0 0)"

definition mock_sampler :: "pydict \<Rightarrow> fsys \<Rightarrow> (error + unit) \<times> fsys" where
  "mock_sampler d fs =
     (case d ''file_root'' of
        Some (PStr fr) \<Rightarrow>
          (if d ''max_ndead'' = Some (PInt 5)
           then (Inr (), fs(''chains/'' @ fr @ ''.resume'' \<mapsto> File ''n10'', ''chains/'' @ fr @ ''.stats'' \<mapsto> File ''n10''))
           else (Inr (), fs(''chains/'' @ fr @ ''.resume'' \<mapsto> File ''n15'', ''chains/'' @ fr @ ''.stats'' \<mapsto> File ''n15'')))
      | _ \<Rightarrow> (Inl (ExternalError 0), fs))"

definition mock_stats :: "string \<Rightarrow> string \<Rightarrow> fsys \<Rightarrow> error + stats" where
  "mock_stats fr bd fs =
     (case fs (bd @ ''/'' @ fr @ ''.stats'') of
        Some (File c) \<Rightarrow> Inr \<lparr>ndead = (if c = ''n10'' then 10 else 15), nlike = 7\<rparr>
      | _ \<Rightarrow> Inl FileNotFoundError)"

definition mock_env :: "int \<Rightarrow> env" where
  "mock_env peak =
     \<lparr>run_func = mock_sampler,
      process_polychord_stats = mock_stats,
      process_polychord_run = (\<lambda>fr bd fs. Inr \<lparr>logl = replicate 15 0\<rparr>),
      allocate = (\<lambda>r t g f. Inr \<lparr>peak_start_ind = peak, nlives_dict = [(0, 5), (1, 20)]\<rparr>),
      float_quotient = mock_quotient,
      float_product = mock_product,
      wide_where = (\<lambda>steps p. [])\<rparr>"

text \<open>A world with one dictionary object, the caller's, at address 0.\<close>

definition caller_world :: "pydict \<Rightarrow> world" where
  "caller_world d =
     \<lparr>heap = (\<lambda>a. Map.empty)(0 := d), next_addr = 1, files = Map.empty,
      invocations = [], saved = Map.empty\<rparr>"

text \<open>
  A caller's dictionary with the three settings the initial run reads, and the local
  variables that \<open>ninit = 5\<close> gives with it.
\<close>

definition demo_dict :: pydict where
  "demo_dict = [''file_root'' \<mapsto> PStr ''t'', ''base_dir'' \<mapsto> PStr ''chains'', ''seed'' \<mapsto> PInt 7]"

definition demo_locals :: locals where
  "demo_locals =
     \<lparr>ninit = 5, init_step = 5, nlive_const = PInt 100, print_time = False,
      seed_increment = 100, smoothing_filter = Savgol_nearest 11 3, root = ''chains/t''\<rparr>"

definition no_kwargs :: kwargs where
  "no_kwargs =
     \<lparr>kw_ninit = None, kw_init_step = None, kw_nlive_const = None, kw_print_time = None,
      kw_seed_increment = None, kw_smoothing_filter = None, kw_other = []\<rparr>"

section \<open>Programs applied to a world\<close>

lemma seq_apply:
  "seq m f w = (case m w of (Inl e, w') \<Rightarrow> (Inl e, w') | (Inr x, w') \<Rightarrow> f x w')"
  by (simp add: seq_def)

lemma ok_apply: "ok x w = (Inr x, w)"
  by (simp add: ok_def)

lemma raise_apply: "raise e w = (Inl e, w)"
  by (simp add: raise_def)

lemma liftE_apply: "liftE r w = (case r of Inl e \<Rightarrow> (Inl e, w) | Inr x \<Rightarrow> (Inr x, w))"
  by (simp add: liftE_def ok_def raise_def split: sum.splits)

lemma total_apply: "total m w = Some (m w)"
  by (simp add: total_def)

lemma seqo_apply:
  "seqo m f w = (case m w of None \<Rightarrow> None
                 | Some (Inl e, w') \<Rightarrow> Some (Inl e, w')
                 | Some (Inr x, w') \<Rightarrow> f x w')"
  by (simp add: seqo_def)

lemma getitem_apply:
  "getitem a k w = (case heap w a k of None \<Rightarrow> (Inl KeyError, w) | Some v \<Rightarrow> (Inr v, w))"
  by (simp add: getitem_def)

lemma setitem_apply:
  "setitem a k v w = (Inr (), w\<lparr>heap := (heap w)(a := (heap w a)(k \<mapsto> v))\<rparr>)"
  by (simp add: setitem_def)

lemma deepcopy_apply:
  "deepcopy a w = (Inr (next_addr w),
     w\<lparr>heap := (heap w)(next_addr w := heap w a), next_addr := Suc (next_addr w)\<rparr>)"
  by (simp add: deepcopy_def)

lemma call_run_func_apply:
  "call_run_func E a w =
     (case run_func E (heap w a) (files w) of
        (r, files') \<Rightarrow> (r, w\<lparr>files := files', invocations := invocations w @ [(a, heap w a)]\<rparr>))"
  by (simp add: call_run_func_def)

lemma with_files_apply: "with_files f w = liftE (f (files w)) w"
  by (simp add: with_files_def)

lemma file_op_apply:
  "file_op f w = (case f (files w) of Inl e \<Rightarrow> (Inl e, w) | Inr files' \<Rightarrow> (Inr (), w\<lparr>files := files'\<rparr>))"
  by (simp add: file_op_def)

lemma pickle_save_apply:
  "pickle_save name x w = (Inr (), w\<lparr>saved := (saved w)(name \<mapsto> x)\<rparr>)"
  by (simp add: pickle_save_def)

lemma apply_defaults_apply:
  "apply_defaults a w =
     (Inr (), w\<lparr>heap := (heap w)(a := set_defaults default_settings (heap w a))\<rparr>)"
  by (simp add: apply_defaults_def)

lemma try_remove_apply:
  "try_remove path w =
     (case os_remove path (files w) of
        Inl e \<Rightarrow> if e = FileNotFoundError then (Inr (), w) else (Inl e, w)
      | Inr files' \<Rightarrow> (Inr (), w\<lparr>files := files'\<rparr>))"
  by (simp add: try_remove_def)

lemmas prog_apply =
  seq_apply ok_apply raise_apply liftE_apply total_apply seqo_apply
  getitem_apply setitem_apply get_int_def get_str_def deepcopy_apply call_run_func_apply
  with_files_apply file_op_apply pickle_save_apply apply_defaults_apply try_remove_apply

lemmas weak_case_congs = prod.case_cong_weak sum.case_cong_weak option.case_cong_weak

lemmas mock_defs = mock_env_def mock_sampler_def mock_stats_def caller_world_def no_kwargs_def
  demo_dict_def demo_locals_def

section \<open>The defaults\<close>

lemma set_defaults_apply:
  "set_defaults xs d k = (case d k of Some v \<Rightarrow> Some v | None \<Rightarrow> map_of xs k)"
proof (induction xs arbitrary: d)
  case Nil
  show ?case by (simp split: option.splits)
next
  case (Cons x xs)
  obtain key v where x: "x = (key, v)" by (cases x)
  show ?case
  proof (cases "d key")
    case None
    then show ?thesis
      by (simp add: x Cons.IH split: option.splits)
  next
    case (Some u)
    then show ?thesis
      by (auto simp: x Cons.IH split: option.splits)
  qed
qed

declare set_defaults.simps [simp del]

lemma defaults_present:
  "set_defaults default_settings d ''nlive'' \<noteq> None"
  "set_defaults default_settings d ''nlives'' \<noteq> None"
  "set_defaults default_settings d ''read_resume'' \<noteq> None"
  by (simp_all add: set_defaults_apply default_settings_def split: option.splits)

lemma defaults_keep:
  "d k = Some v \<Longrightarrow> set_defaults default_settings d k = Some v"
  by (simp add: set_defaults_apply)

section \<open>Usage errors\<close>

lemma prelude_usage:
  assumes "kw_other kw \<noteq> []
         \<or> (\<exists>v. heap w a_in ''nlives'' = Some v \<and> truthy v)
         \<or> (\<exists>v. heap w a_in ''read_resume'' = Some v \<and> truthy v)"
  shows "prelude a_in kw w =
           (Inl (if kw_other kw \<noteq> [] then TypeError else AssertionError),
            w\<lparr>heap := (heap w)(a_in := set_defaults default_settings (heap w a_in))\<rparr>)"
proof -
  let ?d = "set_defaults default_settings (heap w a_in)"
  obtain v1 where v1: "?d ''nlive'' = Some v1" using defaults_present(1) [of "heap w a_in"] by blast
  obtain v2 where v2: "?d ''nlives'' = Some v2" using defaults_present(2) [of "heap w a_in"] by blast
  obtain v3 where v3: "?d ''read_resume'' = Some v3" using defaults_present(3) [of "heap w a_in"] by blast
  show ?thesis
  proof (cases "kw_other kw \<noteq> []")
    case True
    then show ?thesis
      by (simp add: prelude_def prog_apply v1 Let_def)
  next
    case False
    with assms have "(\<exists>v. heap w a_in ''nlives'' = Some v \<and> truthy v)
         \<or> (\<exists>v. heap w a_in ''read_resume'' = Some v \<and> truthy v)" by simp
    then have "truthy v2 \<or> truthy v3"
      using v2 v3 defaults_keep by fastforce
    with False show ?thesis
      by (auto simp: prelude_def prog_apply v1 v2 v3 Let_def)
  qed
qed

text \<open>
  C7. For every value of \<open>dynamic_goal\<close>, a call with a keyword argument other than the
  six known ones, or with a caller's dictionary whose \<open>nlives\<close> is non-empty or whose
  \<open>read_resume\<close> is true, fails with a usage error (\<open>TypeError\<close> for the keyword
  argument, \<open>AssertionError\<close> for the two settings) in a world that differs from the
  initial one by the defaults put into the caller's dictionary only: the sampler has not
  been called.
\<close>

theorem usage_error_before_sampler:
  assumes "kw_other kw \<noteq> []
         \<or> (\<exists>v. heap w a_in ''nlives'' = Some v \<and> truthy v)
         \<or> (\<exists>v. heap w a_in ''read_resume'' = Some v \<and> truthy v)"
  shows "\<exists>e w'. run_dypolychord E a_in dynamic_goal kw w = Some (Inl e, w')
           \<and> e = (if kw_other kw \<noteq> [] then TypeError else AssertionError)
           \<and> w' = w\<lparr>heap := (heap w)(a_in := set_defaults default_settings (heap w a_in))\<rparr>
           \<and> invocations w' = invocations w"
  using prelude_usage [OF assms]
  by (simp add: run_dypolychord_def seqo_apply total_apply)

theorem usage_error_before_sampler_witness:
  "\<exists>w'. run_dypolychord (mock_env 0) 0 1 (no_kwargs\<lparr>kw_ninit := Some 5, kw_other := [''unexpected'']\<rparr>)
           (caller_world [''seed'' \<mapsto> PInt 1]) = Some (Inl TypeError, w')
       \<and> invocations w' = []"
  using usage_error_before_sampler [of "no_kwargs\<lparr>kw_ninit := Some 5, kw_other := [''unexpected'']\<rparr>"
      "caller_world [''seed'' \<mapsto> PInt 1]" 0 "mock_env 0" 1]
  by (simp add: no_kwargs_def caller_world_def)

section \<open>Paths of the step resume files\<close>

lemma digit_char_inj: "d < 10 \<Longrightarrow> d' < 10 \<Longrightarrow> digit_char d = digit_char d' \<Longrightarrow> d = d'"
proof -
  assume d: "d < 10" and d': "d' < 10" and eq: "digit_char d = digit_char d'"
  have dist: "distinct ''0123456789''" by simp
  have len: "length ''0123456789'' = 10" by simp
  from eq have "''0123456789'' ! d = ''0123456789'' ! d'" by (simp add: digit_char_def)
  with dist d d' len show "d = d'" by (metis nth_eq_iff_index_eq)
qed

lemma digit_char_digit: "d < 10 \<Longrightarrow> digit_char d \<in> set ''0123456789''"
  unfolding digit_char_def by (rule nth_mem) simp

declare str_nat.simps [simp del]

lemma str_nat_digits: "set (str_nat n) \<subseteq> set ''0123456789''"
proof (induction n rule: str_nat.induct)
  case (1 n)
  show ?case
  proof (cases "n < 10")
    case True
    then show ?thesis
      using digit_char_digit [of n] by (subst str_nat.simps) simp
  next
    case False
    have "n mod 10 < 10" by simp
    then have "digit_char (n mod 10) \<in> set ''0123456789''" by (rule digit_char_digit)
    with False "1.IH" show ?thesis
      by (subst str_nat.simps) simp
  qed
qed

lemma str_nat_nonempty: "str_nat n \<noteq> []"
  by (subst str_nat.simps) simp

lemma str_nat_inj: "str_nat n = str_nat m \<Longrightarrow> n = m"
proof (induction n arbitrary: m rule: str_nat.induct)
  case (1 n)
  show ?case
  proof (cases "n < 10")
    case n: True
    show ?thesis
    proof (cases "m < 10")
      case True
      with n "1.prems" show ?thesis
        by (simp add: str_nat.simps [of n] str_nat.simps [of m] digit_char_inj)
    next
      case False
      with n "1.prems" show ?thesis
        using str_nat_nonempty [of "m div 10"]
        by (simp add: str_nat.simps [of n] str_nat.simps [of m])
    qed
  next
    case n: False
    show ?thesis
    proof (cases "m < 10")
      case True
      with n "1.prems" show ?thesis
        using str_nat_nonempty [of "n div 10"]
        by (simp add: str_nat.simps [of n] str_nat.simps [of m])
    next
      case False
      with n "1.prems" have eq: "str_nat (n div 10) = str_nat (m div 10)"
        and dg: "digit_char (n mod 10) = digit_char (m mod 10)"
        by (simp_all add: str_nat.simps [of n] str_nat.simps [of m])
      from "1.IH" [OF n eq] have "n div 10 = m div 10" .
      moreover from dg have "n mod 10 = m mod 10"
        by (rule digit_char_inj [rotated 2]) simp_all
      ultimately show ?thesis by (metis div_mult_mod_eq)
    qed
  qed
qed

lemma str_nat_no_minus: "str_nat n \<noteq> CHR ''-'' # s"
proof
  assume "str_nat n = CHR ''-'' # s"
  then have "CHR ''-'' \<in> set (str_nat n)" by simp
  with str_nat_digits [of n] show False by auto
qed

lemma str_int_inj: "str_int i = str_int j \<Longrightarrow> i = j"
proof -
  assume eq: "str_int i = str_int j"
  show "i = j"
  proof (cases "i < 0")
    case i: True
    show ?thesis
    proof (cases "j < 0")
      case True
      with i eq have "nat (- i) = nat (- j)" by (simp add: str_int_def str_nat_inj)
      with i True show ?thesis by simp
    next
      case False
      with i eq have "str_nat (nat j) = CHR ''-'' # str_nat (nat (- i))" by (simp add: str_int_def)
      with str_nat_no_minus show ?thesis by blast
    qed
  next
    case i: False
    show ?thesis
    proof (cases "j < 0")
      case True
      with i eq have "str_nat (nat i) = CHR ''-'' # str_nat (nat (- j))" by (simp add: str_int_def)
      with str_nat_no_minus show ?thesis by blast
    next
      case False
      with i eq have "nat i = nat j" by (simp add: str_int_def str_nat_inj)
      with i False show ?thesis by simp
    qed
  qed
qed

lemma step_resume_path_inj: "step_resume_path r n = step_resume_path r m \<Longrightarrow> n = m"
  by (simp add: step_resume_path_def str_int_inj)

lemma step_resume_path_not_dyn: "step_resume_path r n \<noteq> r @ ''_dyn.resume''"
  by (simp add: step_resume_path_def)

lemma step_resume_path_not_init: "r @ ''_init.resume'' \<noteq> step_resume_path r n"
  by (simp add: step_resume_path_def)

lemma step_paths_distinct: "distinct (map (step_resume_path r) (remdups steps))"
  by (simp add: distinct_map inj_on_def step_resume_path_inj)

section \<open>Removal of resume files\<close>

lemma remove_all_files:
  "distinct ps \<Longrightarrow> (\<forall>p \<in> set ps. \<exists>c. files w p = Some (File c)) \<Longrightarrow>
   remove_all ps w = (Inr (), w\<lparr>files := (\<lambda>p. if p \<in> set ps then None else files w p)\<rparr>)"
proof (induction ps arbitrary: w)
  case Nil
  then show ?case by (simp add: ok_apply)
next
  case (Cons p ps)
  from Cons.prems obtain c where c: "files w p = Some (File c)" by auto
  let ?w1 = "w\<lparr>files := (files w)(p := None)\<rparr>"
  have step: "file_op (os_remove p) w = (Inr (), ?w1)"
    by (simp add: file_op_apply os_remove_def c)
  have "remove_all ps ?w1 = (Inr (), ?w1\<lparr>files := (\<lambda>q. if q \<in> set ps then None else files ?w1 q)\<rparr>)"
    using Cons.prems by (intro Cons.IH) auto
  moreover have "(\<lambda>q. if q \<in> set ps then None else files ?w1 q)
      = (\<lambda>q. if q \<in> set (p # ps) then None else files w q)"
    by (rule ext) simp
  ultimately show ?case
    by (simp add: seq_apply step)
qed

lemma remove_twice_fails:
  "files w p = Some (File c) \<Longrightarrow> fst (remove_all [p, p] w) = Inl FileNotFoundError"
  by (simp add: seq_apply file_op_apply os_remove_def)

lemma try_remove_cases:
  "try_remove p w =
     (if files w p = Some Directory then (Inl IsADirectoryError, w)
      else (Inr (), w\<lparr>files := (files w)(p := None)\<rparr>))"
proof (cases "files w p")
  case None
  then have "(files w)(p := None) = files w" by (rule_tac ext) simp
  with None show ?thesis by (simp add: try_remove_apply os_remove_def)
next
  case (Some n)
  then show ?thesis by (cases n) (simp_all add: try_remove_apply os_remove_def)
qed

text \<open>
  C8. (1) The paths removed in step 2 are pairwise distinct, and they are the step resume
  paths of the dead-point counts of \<open>step_ndead\<close>: no path is removed twice. (2) So when
  each of these paths holds a file, the removal succeeds and leaves none of them.
  (3) The final removal of \<open>_init.resume\<close> and \<open>_dyn.resume\<close> succeeds when a file is
  missing and removes the files that are there; the other error of a removal, a directory
  at the path, is raised to the caller.
\<close>

theorem cleanup_tolerant:
  "distinct (map (step_resume_path r) (remdups steps))
   \<and> set (map (step_resume_path r) (remdups steps)) = step_resume_path r ` set steps
   \<and> ((\<forall>n \<in> set steps. \<exists>c. files w (step_resume_path r n) = Some (File c)) \<longrightarrow>
        remove_step_files r steps w =
          (Inr (), w\<lparr>files := (\<lambda>p. if p \<in> step_resume_path r ` set steps then None else files w p)\<rparr>))
   \<and> tidy_up r [''init'', ''dyn''] w =
        (if files w (r @ ''_init.resume'') = Some Directory then (Inl IsADirectoryError, w)
         else if files w (r @ ''_dyn.resume'') = Some Directory
           then (Inl IsADirectoryError, w\<lparr>files := (files w)(r @ ''_init.resume'' := None)\<rparr>)
         else (Inr (), w\<lparr>files := (files w)(r @ ''_init.resume'' := None, r @ ''_dyn.resume'' := None)\<rparr>))"
proof (intro conjI impI)
  show "distinct (map (step_resume_path r) (remdups steps))"
    by (rule step_paths_distinct)
  show "set (map (step_resume_path r) (remdups steps)) = step_resume_path r ` set steps"
    by simp
next
  assume "\<forall>n \<in> set steps. \<exists>c. files w (step_resume_path r n) = Some (File c)"
  then have "\<forall>p \<in> set (map (step_resume_path r) (remdups steps)). \<exists>c. files w p = Some (File c)"
    by auto
  from remove_all_files [OF step_paths_distinct this]
  show "remove_step_files r steps w =
          (Inr (), w\<lparr>files := (\<lambda>p. if p \<in> step_resume_path r ` set steps then None else files w p)\<rparr>)"
    by (simp add: remove_step_files_def)
next
  show "tidy_up r [''init'', ''dyn''] w =
        (if files w (r @ ''_init.resume'') = Some Directory then (Inl IsADirectoryError, w)
         else if files w (r @ ''_dyn.resume'') = Some Directory
           then (Inl IsADirectoryError, w\<lparr>files := (files w)(r @ ''_init.resume'' := None)\<rparr>)
         else (Inr (), w\<lparr>files := (files w)(r @ ''_init.resume'' := None, r @ ''_dyn.resume'' := None)\<rparr>))"
    by (simp add: seq_apply ok_apply try_remove_cases)
qed

theorem cleanup_tolerant_witness:
  "fst (remove_step_files ''c/t'' [5, 10, 10]
     (caller_world Map.empty\<lparr>files := [step_resume_path ''c/t'' 5 \<mapsto> File ''a'',
                                          step_resume_path ''c/t'' 10 \<mapsto> File ''b'']\<rparr>)) = Inr ()
   \<and> fst (tidy_up ''c/t'' [''init'', ''dyn'']
     (caller_world Map.empty\<lparr>files := [''c/t_dyn.resume'' \<mapsto> File ''a'']\<rparr>)) = Inr ()
   \<and> fst (tidy_up ''c/t'' [''init'', ''dyn'']
     (caller_world Map.empty\<lparr>files := [''c/t_dyn.resume'' \<mapsto> Directory]\<rparr>)) = Inl IsADirectoryError"
  using cleanup_tolerant [of "''c/t''" "[5, 10, 10]"
      "caller_world Map.empty\<lparr>files := [step_resume_path ''c/t'' 5 \<mapsto> File ''a'',
                                          step_resume_path ''c/t'' 10 \<mapsto> File ''b'']\<rparr>"]
    cleanup_tolerant [of "''c/t''" "[5, 10, 10]"
      "caller_world Map.empty\<lparr>files := [''c/t_dyn.resume'' \<mapsto> File ''a'']\<rparr>"]
    cleanup_tolerant [of "''c/t''" "[5, 10, 10]"
      "caller_world Map.empty\<lparr>files := [''c/t_dyn.resume'' \<mapsto> Directory]\<rparr>"]
  by (simp add: caller_world_def step_resume_path_inj)

section \<open>The resume file of the dynamic run\<close>

lemma last_filter_upt:
  assumes "i < n" and "P i" and "\<forall>j<n. i < j \<longrightarrow> \<not> P j"
  shows "filter P [0..<n] \<noteq> [] \<and> last (filter P [0..<n]) = i"
proof -
  let ?xs = "filter P [0..<n]"
  from assms have mem: "i \<in> set ?xs" by simp
  then have "0 < length ?xs" by (rule length_pos_if_in_set)
  then have ne: "?xs \<noteq> []" by simp
  then have lm: "last ?xs \<in> set ?xs" by (rule last_in_set)
  then have l: "last ?xs < n" "P (last ?xs)" by simp_all
  have srt: "sorted ?xs" by (simp add: sorted_wrt_filter)
  from mem obtain k where k: "k < length ?xs" "?xs ! k = i" by (metis in_set_conv_nth)
  have "?xs ! k \<le> ?xs ! (length ?xs - 1)"
    using srt k(1) by (intro sorted_nth_mono) auto
  then have "i \<le> last ?xs" using k(2) ne by (simp add: last_conv_nth)
  moreover have "\<not> i < last ?xs" using assms(3) l by blast
  ultimately show ?thesis using ne by simp
qed

text \<open>
  In int64 the resume step of a count wraps at the count \<open>- 2 ** 63\<close> only, and is then the
  largest int64, below no peak index.
\<close>

lemma wrap64_resume_step:
  assumes "int64 n" and "int64 peak"
  shows "(wrap64 (n - 1) < peak) = below_peak n peak"
proof (cases "n = - (2 ^ 63)")
  case True
  have "wrap64 (- (2 ^ 63) - 1) = 2 ^ 63 - 1" by (simp add: wrap64_def)
  with True assms(2) show ?thesis by (simp add: below_peak_def int64_def)
next
  case False
  with assms(1) have "0 \<le> n - 1 + 2 ^ 63" and "n - 1 + 2 ^ 63 < 2 ^ 64"
    by (simp_all add: int64_def)
  then have "(n - 1 + 2 ^ 63) mod 2 ^ 64 = n - 1 + 2 ^ 63" by (rule mod_pos_pos_trivial)
  then have "wrap64 (n - 1) = n - 1" by (simp add: wrap64_def)
  with False show ?thesis by (simp add: below_peak_def)
qed

lemma where_below_int64:
  assumes "list_all int64 steps" and "int64 peak"
  shows "where_below E steps peak = filter (\<lambda>i. below_peak (steps ! i) peak) [0..<length steps]"
proof -
  have "filter (\<lambda>i. resume_steps steps ! i < peak) [0..<length steps]
      = filter (\<lambda>i. below_peak (steps ! i) peak) [0..<length steps]"
  proof (rule filter_cong [OF refl])
    fix i
    assume "i \<in> set [0..<length steps]"
    then have i: "i < length steps" by simp
    with assms(1) have "int64 (steps ! i)" by (simp add: list_all_length)
    from wrap64_resume_step [OF this assms(2)] i
    show "(resume_steps steps ! i < peak) = below_peak (steps ! i) peak"
      by (simp add: resume_steps_def)
  qed
  with assms show ?thesis by (simp add: where_below_def)
qed

lemma select_resume_latest:
  assumes "list_all int64 steps" and "int64 peak"
    and "i < length steps" and "below_peak (steps ! i) peak"
    and "\<forall>j<length steps. i < j \<longrightarrow> \<not> below_peak (steps ! j) peak"
  shows "select_resume E steps peak = Inr (steps ! i)"
  using last_filter_upt [of i "length steps" "\<lambda>i. below_peak (steps ! i) peak"] assms
  by (simp add: select_resume_def where_below_int64 Let_def)

lemma select_resume_none:
  assumes "list_all int64 steps" and "int64 peak"
    and "\<forall>j<length steps. \<not> below_peak (steps ! j) peak"
  shows "select_resume E steps peak = Inl IndexError"
  using assms by (simp add: select_resume_def where_below_int64 Let_def filter_empty_conv)

text \<open>The steps are recorded when \<open>dynamic_goal\<close> is not 0, and only then.\<close>

lemma initial_run_steps:
  assumes "initial_run E L a_in dynamic_goal w = Some (Inr (sd, sto), w')"
  shows "(sto = None) = (dynamic_goal = 0)"
  using assms
  by (auto simp: initial_run_def seqo_apply total_apply seq_apply ok_apply
      split: option.splits prod.splits sum.splits if_splits)

text \<open>
  C1, as the claim states it, fails: with dead-point counts 5, 10, 10 at the three steps
  and the peak at index 10, the resume file staged is the one of count 10 (the resume step
  10 - 1 is below the peak), and 10 is not strictly less than the peak index; the claim
  would stage the file of count 5.
\<close>

theorem resume_below_peak_counterexample:
  "stage_resume (mock_env 10)
     \<lparr>ninit = 5, init_step = 5, nlive_const = PInt 100, print_time = False,
      seed_increment = 100, smoothing_filter = Savgol_nearest 11 3, root = ''c/t''\<rparr>
     (Some \<lparr>step_ndead = [5, 10, 10], outputs_at_resumes = Map.empty\<rparr>)
     \<lparr>peak_start_ind = 10, nlives_dict = []\<rparr>
     (caller_world Map.empty\<lparr>files := [''c/t_init_5.resume'' \<mapsto> File ''at 5'',
                                          ''c/t_init_10.resume'' \<mapsto> File ''at 10'']\<rparr>)
   = (Inr (Some 10),
     caller_world Map.empty\<lparr>files := [''c/t_init_5.resume'' \<mapsto> File ''at 5'',
                                         ''c/t_init_10.resume'' \<mapsto> File ''at 10'',
                                         ''c/t_dyn.resume'' \<mapsto> File ''at 10'']\<rparr>)"
  by (simp add: stage_resume_def select_resume_def where_below_def resume_steps_def wrap64_def
      int64_def prog_apply copyfile_def step_resume_path_def str_int_def str_nat.simps
      digit_char_def caller_world_def Let_def cong: weak_case_congs)

text \<open>
  C1, amended. When the peak index is 0, nothing is staged. When it is not 0 and
  \<open>step_ndead\<close> is unbound, which it is after an initial run with \<open>dynamic_goal\<close> 0
  and only then, line 112 raises \<open>UnboundLocalError\<close>. When it is not 0 and the steps
  are recorded, with the counts and
  the peak index in the range of int64: if no step is below the peak, that is if every
  count exceeds the peak index, line 117 raises \<open>IndexError\<close>; otherwise the checkpoint
  selected is the one of the latest step below the peak, the latest whose dead-point count
  minus one is strictly less than the peak index, and its file is copied to
  \<open>_dyn.resume\<close>. An error of the copy is the error of the call; there is none when the
  file of the step is there and \<open>_dyn.resume\<close> is not a directory. In every case of
  failure the world is left as it was.
\<close>

theorem resume_staged:
  "(peak_start_ind info = 0 \<longrightarrow> stage_resume E L sto info w = (Inr None, w))
   \<and> (peak_start_ind info \<noteq> 0 \<and> sto = None \<longrightarrow>
        stage_resume E L sto info w = (Inl UnboundLocalError, w))
   \<and> (peak_start_ind info \<noteq> 0 \<and> sto = Some st
        \<and> list_all int64 (step_ndead st) \<and> int64 (peak_start_ind info) \<longrightarrow>
        ((\<forall>j<length (step_ndead st). \<not> below_peak (step_ndead st ! j) (peak_start_ind info)) \<longrightarrow>
           stage_resume E L sto info w = (Inl IndexError, w))
      \<and> (i < length (step_ndead st) \<and> below_peak (step_ndead st ! i) (peak_start_ind info)
          \<and> (\<forall>j<length (step_ndead st). i < j \<longrightarrow>
                \<not> below_peak (step_ndead st ! j) (peak_start_ind info)) \<longrightarrow>
           stage_resume E L sto info w =
             (case copyfile (step_resume_path (root L) (step_ndead st ! i))
                     (root L @ ''_dyn.resume'') (files w) of
                Inl e \<Rightarrow> (Inl e, w)
              | Inr files' \<Rightarrow> (Inr (Some (step_ndead st ! i)), w\<lparr>files := files'\<rparr>))
         \<and> (files w (step_resume_path (root L) (step_ndead st ! i)) = Some (File c)
             \<and> files w (root L @ ''_dyn.resume'') \<noteq> Some Directory \<longrightarrow>
              stage_resume E L sto info w =
                (Inr (Some (step_ndead st ! i)),
                 w\<lparr>files := (files w)(root L @ ''_dyn.resume'' \<mapsto> File c)\<rparr>))))
   \<and> (initial_run E L a_in dynamic_goal w0 = Some (Inr (sd, sto), w) \<longrightarrow>
        (sto = None) = (dynamic_goal = 0))"
proof (intro conjI impI)
  assume "initial_run E L a_in dynamic_goal w0 = Some (Inr (sd, sto), w)"
  then show "(sto = None) = (dynamic_goal = 0)" by (rule initial_run_steps)
next
  assume "peak_start_ind info = 0"
  then show "stage_resume E L sto info w = (Inr None, w)"
    by (simp add: stage_resume_def ok_apply)
next
  assume "peak_start_ind info \<noteq> 0 \<and> sto = None"
  then show "stage_resume E L sto info w = (Inl UnboundLocalError, w)"
    by (simp add: stage_resume_def raise_apply)
next
  assume a: "peak_start_ind info \<noteq> 0 \<and> sto = Some st
        \<and> list_all int64 (step_ndead st) \<and> int64 (peak_start_ind info)"
    and n: "\<forall>j<length (step_ndead st). \<not> below_peak (step_ndead st ! j) (peak_start_ind info)"
  from a n have "select_resume E (step_ndead st) (peak_start_ind info) = Inl IndexError"
    by (intro select_resume_none) simp_all
  with a show "stage_resume E L sto info w = (Inl IndexError, w)"
    by (simp add: stage_resume_def prog_apply)
next
  assume a: "peak_start_ind info \<noteq> 0 \<and> sto = Some st
        \<and> list_all int64 (step_ndead st) \<and> int64 (peak_start_ind info)"
    and i: "i < length (step_ndead st) \<and> below_peak (step_ndead st ! i) (peak_start_ind info)
          \<and> (\<forall>j<length (step_ndead st). i < j \<longrightarrow>
                \<not> below_peak (step_ndead st ! j) (peak_start_ind info))"
  from a i have "select_resume E (step_ndead st) (peak_start_ind info) = Inr (step_ndead st ! i)"
    by (intro select_resume_latest) simp_all
  with a show "stage_resume E L sto info w =
             (case copyfile (step_resume_path (root L) (step_ndead st ! i))
                     (root L @ ''_dyn.resume'') (files w) of
                Inl e \<Rightarrow> (Inl e, w)
              | Inr files' \<Rightarrow> (Inr (Some (step_ndead st ! i)), w\<lparr>files := files'\<rparr>))"
    by (simp add: stage_resume_def prog_apply split: sum.splits)
next
  assume a: "peak_start_ind info \<noteq> 0 \<and> sto = Some st
        \<and> list_all int64 (step_ndead st) \<and> int64 (peak_start_ind info)"
    and i: "i < length (step_ndead st) \<and> below_peak (step_ndead st ! i) (peak_start_ind info)
          \<and> (\<forall>j<length (step_ndead st). i < j \<longrightarrow>
                \<not> below_peak (step_ndead st ! j) (peak_start_ind info))"
    and f: "files w (step_resume_path (root L) (step_ndead st ! i)) = Some (File c)
             \<and> files w (root L @ ''_dyn.resume'') \<noteq> Some Directory"
  from a i have sel: "select_resume E (step_ndead st) (peak_start_ind info) = Inr (step_ndead st ! i)"
    by (intro select_resume_latest) simp_all
  have cp: "copyfile (step_resume_path (root L) (step_ndead st ! i)) (root L @ ''_dyn.resume'') (files w)
      = Inr ((files w)(root L @ ''_dyn.resume'' \<mapsto> File c))"
    using f by (auto simp: copyfile_def step_resume_path_not_dyn split: option.splits node.splits)
  from a sel cp show "stage_resume E L sto info w =
           (Inr (Some (step_ndead st ! i)),
            w\<lparr>files := (files w)(root L @ ''_dyn.resume'' \<mapsto> File c)\<rparr>)"
    by (simp add: stage_resume_def prog_apply)
qed

theorem resume_staged_witness:
  "stage_resume (mock_env 7)
     \<lparr>ninit = 5, init_step = 5, nlive_const = PInt 100, print_time = False,
      seed_increment = 100, smoothing_filter = Savgol_nearest 11 3, root = ''c/t''\<rparr>
     (Some \<lparr>step_ndead = [5, 10, 10], outputs_at_resumes = Map.empty\<rparr>)
     \<lparr>peak_start_ind = 7, nlives_dict = []\<rparr>
     (caller_world Map.empty\<lparr>files := [step_resume_path ''c/t'' 5 \<mapsto> File ''at 5'']\<rparr>)
   = (Inr (Some 5),
     caller_world Map.empty\<lparr>files := [step_resume_path ''c/t'' 5 \<mapsto> File ''at 5'',
                                         ''c/t_dyn.resume'' \<mapsto> File ''at 5'']\<rparr>)
   \<and> stage_resume (mock_env 1)
     \<lparr>ninit = 5, init_step = 5, nlive_const = PInt 100, print_time = False,
      seed_increment = 100, smoothing_filter = Savgol_nearest 11 3, root = ''c/t''\<rparr>
     (Some \<lparr>step_ndead = [5, 10, 10], outputs_at_resumes = Map.empty\<rparr>)
     \<lparr>peak_start_ind = 1, nlives_dict = []\<rparr>
     (caller_world Map.empty\<lparr>files := [step_resume_path ''c/t'' 5 \<mapsto> File ''at 5'']\<rparr>)
   = (Inl IndexError,
     caller_world Map.empty\<lparr>files := [step_resume_path ''c/t'' 5 \<mapsto> File ''at 5'']\<rparr>)"
proof -
  let ?L = "\<lparr>ninit = 5, init_step = 5, nlive_const = PInt 100, print_time = False,
      seed_increment = 100, smoothing_filter = Savgol_nearest 11 3, root = ''c/t''\<rparr>"
  let ?st = "\<lparr>step_ndead = [5, 10, 10], outputs_at_resumes = Map.empty\<rparr>"
  let ?w = "caller_world Map.empty\<lparr>files := [step_resume_path ''c/t'' 5 \<mapsto> File ''at 5'']\<rparr>"
  let ?at7 = "\<lparr>peak_start_ind = 7, nlives_dict = []\<rparr>"
  let ?at1 = "\<lparr>peak_start_ind = 1, nlives_dict = []\<rparr>"
  have range7: "peak_start_ind ?at7 \<noteq> 0 \<and> Some ?st = Some ?st
      \<and> list_all int64 (step_ndead ?st) \<and> int64 (peak_start_ind ?at7)"
    by (simp add: int64_def)
  have latest: "0 < length (step_ndead ?st) \<and> below_peak (step_ndead ?st ! 0) (peak_start_ind ?at7)
      \<and> (\<forall>j<length (step_ndead ?st). 0 < j \<longrightarrow> \<not> below_peak (step_ndead ?st ! j) (peak_start_ind ?at7))"
    by (simp add: below_peak_def less_Suc_eq all_conj_distrib)
  have there: "files ?w (step_resume_path (root ?L) (step_ndead ?st ! 0)) = Some (File ''at 5'')
      \<and> files ?w (root ?L @ ''_dyn.resume'') \<noteq> Some Directory"
    using step_resume_path_not_dyn [of "''c/t''" 5] by (simp add: caller_world_def)
  note staged = resume_staged [of ?at7 "mock_env 7" ?L "Some ?st" ?w ?st 0 "''at 5''",
      THEN conjunct2, THEN conjunct2, THEN conjunct1, THEN mp, OF range7,
      THEN conjunct2, THEN mp, OF latest, THEN conjunct2, THEN mp, OF there]
  have range1: "peak_start_ind ?at1 \<noteq> 0 \<and> Some ?st = Some ?st
      \<and> list_all int64 (step_ndead ?st) \<and> int64 (peak_start_ind ?at1)"
    by (simp add: int64_def)
  have none: "\<forall>j<length (step_ndead ?st). \<not> below_peak (step_ndead ?st ! j) (peak_start_ind ?at1)"
    by (simp add: below_peak_def less_Suc_eq all_conj_distrib)
  note failed = resume_staged [of ?at1 "mock_env 1" ?L "Some ?st" ?w ?st 0 "''at 5''",
      THEN conjunct2, THEN conjunct2, THEN conjunct1, THEN mp, OF range1,
      THEN conjunct1, THEN mp, OF none]
  from staged failed show ?thesis by (simp add: caller_world_def)
qed

section \<open>The total number of samples\<close>

lemma sample_total_result:
  assumes "heap w a_in ''max_ndead'' = Some v" and "int_of_pyval v = Inr mx"
  shows "sample_total E L a_in init_run w =
     (if mx > 0 then
        (if mx > int (length (logl init_run)) then (Inr (IntNum mx), w)
         else (Inl AssertionError, w))
      else (case int_of_pyval (nlive_const L) of
              Inl e \<Rightarrow> (Inl e, w)
            | Inr nc \<Rightarrow>
                (case true_divide E nc (ninit L) of
                   Inl e \<Rightarrow> (Inl e, w)
                 | Inr q \<Rightarrow>
                     if nc > ninit L
                     then (Inr (FloatNum (float_product E (length (logl init_run)) q)), w)
                     else (Inl AssertionError, w))))"
  using assms by (simp add: sample_total_def prog_apply split: sum.splits)

text \<open>The test for a quotient too large, on the ints and on the quotient itself.\<close>

lemma quotient_bound:
  assumes "b \<noteq> 0"
  shows "(k * \<bar>b\<bar> \<le> \<bar>a\<bar>) = (real_of_int k \<le> \<bar>real_of_int a / real_of_int b\<bar>)"
proof -
  from assms have pos: "0 < \<bar>real_of_int b\<bar>" by simp
  have "(real_of_int k \<le> \<bar>real_of_int a\<bar> / \<bar>real_of_int b\<bar>)
      = (real_of_int k * \<bar>real_of_int b\<bar> \<le> \<bar>real_of_int a\<bar>)"
    by (rule pos_le_divide_eq [OF pos])
  also have "\<dots> = (real_of_int (k * \<bar>b\<bar>) \<le> real_of_int \<bar>a\<bar>)" by simp
  also have "\<dots> = (k * \<bar>b\<bar> \<le> \<bar>a\<bar>)" by (rule of_int_le_iff)
  finally show ?thesis by (simp add: abs_divide)
qed

lemma true_divide_result:
  "true_divide E a b =
     (if b = 0 then Inl ZeroDivisionError
      else if 2 ^ 1024 - 2 ^ 970 \<le> \<bar>real_of_int a / real_of_int b\<bar> then Inl OverflowError
      else Inr (float_quotient E a b))"
proof (cases "b = 0")
  case True
  then show ?thesis by (simp add: true_divide_def)
next
  case False
  have "real_of_int (2 ^ 1024 - 2 ^ 970) = 2 ^ 1024 - 2 ^ 970" by simp
  with quotient_bound [OF False, of "2 ^ 1024 - 2 ^ 970" a] False
  show ?thesis by (simp only: true_divide_def if_False)
qed

lemma run_after_initial:
  assumes "prelude a_in kw w = (Inr L, w0)"
    and "initial_run E L a_in dynamic_goal w0 = Some (Inr (sd, sto), w1)"
  shows "run_dypolychord E a_in dynamic_goal kw w =
     Some (seq (allocation E L a_in dynamic_goal sto) (\<lambda>(info, resume).
           seq (dynamic_run E L a_in dynamic_goal sd info) (\<lambda>_.
             finish L sto info resume)) w1)"
  using assms by (simp add: run_dypolychord_def seqo_apply total_apply)

lemma allocation_sample_error:
  assumes "heap w a_in ''file_root'' = Some (PStr fr)"
    and "heap w a_in ''base_dir'' = Some (PStr bd)"
    and "process_polychord_run E (fr @ ''_init'') bd (files w) = Inr init_run"
    and "sample_total E L a_in init_run w = (Inl e, w)"
  shows "allocation E L a_in dynamic_goal sto w = (Inl e, w)"
  using assms by (simp add: allocation_def prog_apply)

text \<open>
  C5, as the claim states it, fails when \<open>ninit\<close> is 0: with \<open>ninit = 0\<close> and
  \<open>nlive_const = 0\<close> (so \<open>nlive_const <= ninit\<close>) and no cap \<open>max_ndead\<close>, the quotient
  \<open>nlive_const / ninit\<close> of line 106 is evaluated before the assertion of line 107, and
  the call fails with \<open>ZeroDivisionError\<close>, not with the assertion's error.
\<close>

theorem sample_total_counterexample:
  "map_option fst
     (run_dypolychord (mock_env 0) 0 0 (no_kwargs\<lparr>kw_ninit := Some 0, kw_nlive_const := Some 0\<rparr>)
        (caller_world Map.empty))
   = Some (Inl ZeroDivisionError)"
  by (simp add: run_dypolychord_def prelude_def initial_run_def initial_copy_def allocation_def
      sample_total_def true_divide_def prog_apply mock_defs set_defaults_apply default_settings_def
      path_join_def Let_def cong: weak_case_congs)

text \<open>
  C5, amended, for ints \<open>max_ndead\<close>, \<open>nlive_const\<close> and \<open>ninit\<close>. After the initial run
  (in the world \<open>w1\<close> it leaves), the total number of samples is the caller's \<open>max_ndead\<close>
  when that is positive, and the call fails with \<open>AssertionError\<close> unless it exceeds the
  number of points of the initial run. Otherwise the quotient \<open>nlive_const / ninit\<close> is
  computed first: the call fails with \<open>ZeroDivisionError\<close> when \<open>ninit\<close> is 0 and with
  \<open>OverflowError\<close> when the quotient is too large for a float, from
  \<open>2 ** 1024 - 2 ** 970\<close> on in absolute value; when the quotient is a float, the total is
  the float product of the number of points and the quotient, and the call fails with
  \<open>AssertionError\<close> unless \<open>nlive_const > ninit\<close>. Every failure of this part is the
  failure of the call, which returns in the world \<open>w1\<close>: the sampler has not been called
  again.
\<close>

theorem sample_total_checked:
  assumes "prelude a_in kw w = (Inr L, w0)"
    and "initial_run E L a_in dynamic_goal w0 = Some (Inr (sd, sto), w1)"
    and "heap w1 a_in ''file_root'' = Some (PStr fr)"
    and "heap w1 a_in ''base_dir'' = Some (PStr bd)"
    and "process_polychord_run E (fr @ ''_init'') bd (files w1) = Inr init_run"
    and "heap w1 a_in ''max_ndead'' = Some v"
    and "int_of_pyval v = Inr mx"
  shows "(0 < mx \<longrightarrow>
           sample_total E L a_in init_run w1 =
             (if int (length (logl init_run)) < mx then (Inr (IntNum mx), w1)
              else (Inl AssertionError, w1)))
       \<and> (mx \<le> 0 \<and> int_of_pyval (nlive_const L) = Inr nc \<longrightarrow>
           sample_total E L a_in init_run w1 =
             (if ninit L = 0 then (Inl ZeroDivisionError, w1)
              else if 2 ^ 1024 - 2 ^ 970 \<le> \<bar>real_of_int nc / real_of_int (ninit L)\<bar>
              then (Inl OverflowError, w1)
              else if ninit L < nc
              then (Inr (FloatNum (float_product E (length (logl init_run))
                                     (float_quotient E nc (ninit L)))), w1)
              else (Inl AssertionError, w1)))
       \<and> (sample_total E L a_in init_run w1 = (Inl e, w1) \<longrightarrow>
           run_dypolychord E a_in dynamic_goal kw w = Some (Inl e, w1))
       \<and> ((0 < mx \<and> mx \<le> int (length (logl init_run)))
            \<or> (mx \<le> 0 \<and> int_of_pyval (nlive_const L) = Inr nc \<and> ninit L \<noteq> 0
                \<and> \<bar>real_of_int nc / real_of_int (ninit L)\<bar> < 2 ^ 1024 - 2 ^ 970
                \<and> nc \<le> ninit L) \<longrightarrow>
           run_dypolychord E a_in dynamic_goal kw w = Some (Inl AssertionError, w1))"
proof (intro conjI impI)
  assume "0 < mx"
  then show "sample_total E L a_in init_run w1 =
             (if int (length (logl init_run)) < mx then (Inr (IntNum mx), w1)
              else (Inl AssertionError, w1))"
    by (simp add: sample_total_result [OF assms(6,7)])
next
  assume "mx \<le> 0 \<and> int_of_pyval (nlive_const L) = Inr nc"
  then show "sample_total E L a_in init_run w1 =
             (if ninit L = 0 then (Inl ZeroDivisionError, w1)
              else if 2 ^ 1024 - 2 ^ 970 \<le> \<bar>real_of_int nc / real_of_int (ninit L)\<bar>
              then (Inl OverflowError, w1)
              else if ninit L < nc
              then (Inr (FloatNum (float_product E (length (logl init_run))
                                     (float_quotient E nc (ninit L)))), w1)
              else (Inl AssertionError, w1))"
    by (simp add: sample_total_result [OF assms(6,7)] true_divide_result)
next
  assume "sample_total E L a_in init_run w1 = (Inl e, w1)"
  from allocation_sample_error [OF assms(3,4,5) this]
  show "run_dypolychord E a_in dynamic_goal kw w = Some (Inl e, w1)"
    by (simp add: run_after_initial [OF assms(1,2)] seq_apply)
next
  assume "(0 < mx \<and> mx \<le> int (length (logl init_run)))
            \<or> (mx \<le> 0 \<and> int_of_pyval (nlive_const L) = Inr nc \<and> ninit L \<noteq> 0
                \<and> \<bar>real_of_int nc / real_of_int (ninit L)\<bar> < 2 ^ 1024 - 2 ^ 970
                \<and> nc \<le> ninit L)"
  then have "sample_total E L a_in init_run w1 = (Inl AssertionError, w1)"
    by (auto simp: sample_total_result [OF assms(6,7)] true_divide_result)
  from allocation_sample_error [OF assms(3,4,5) this]
  show "run_dypolychord E a_in dynamic_goal kw w = Some (Inl AssertionError, w1)"
    by (simp add: run_after_initial [OF assms(1,2)] seq_apply)
qed

theorem sample_total_checked_witness:
  "\<exists>w1. run_dypolychord (mock_env 0) 0 0 (no_kwargs\<lparr>kw_ninit := Some 5, kw_nlive_const := Some 0\<rparr>)
           (caller_world Map.empty) = Some (Inl AssertionError, w1)
       \<and> length (invocations w1) = 1"
proof -
  let ?kw = "no_kwargs\<lparr>kw_ninit := Some 5, kw_nlive_const := Some 0\<rparr>"
  let ?L = "\<lparr>ninit = 5, init_step = 5, nlive_const = PInt 0, print_time = False,
      seed_increment = 100, smoothing_filter = Savgol_nearest 11 3, root = ''chains/temp''\<rparr>"
  let ?w0 = "caller_world (set_defaults default_settings Map.empty)"
  have pre: "prelude 0 ?kw (caller_world Map.empty) = (Inr ?L, ?w0)"
    by (simp add: prelude_def prog_apply mock_defs set_defaults_apply default_settings_def
        path_join_def Let_def cong: weak_case_congs)
  have "\<exists>sd sto w1. initial_run (mock_env 0) ?L 0 0 ?w0 = Some (Inr (sd, sto), w1)
      \<and> heap w1 0 ''file_root'' = Some (PStr ''temp'')
      \<and> heap w1 0 ''base_dir'' = Some (PStr ''chains'')
      \<and> heap w1 0 ''max_ndead'' = Some (PInt (- 1))
      \<and> length (invocations w1) = 1"
    by (simp add: initial_run_def initial_copy_def prog_apply mock_defs set_defaults_apply
        default_settings_def Let_def cong: weak_case_congs)
  then obtain sd sto w1 where
    ini: "initial_run (mock_env 0) ?L 0 0 ?w0 = Some (Inr (sd, sto), w1)"
    and fr: "heap w1 0 ''file_root'' = Some (PStr ''temp'')"
    and bd: "heap w1 0 ''base_dir'' = Some (PStr ''chains'')"
    and mx: "heap w1 0 ''max_ndead'' = Some (PInt (- 1))"
    and len: "length (invocations w1) = 1"
    by blast
  have rd: "process_polychord_run (mock_env 0) (''temp'' @ ''_init'') ''chains'' (files w1)
      = Inr \<lparr>logl = replicate 15 0\<rparr>"
    by (simp add: mock_env_def)
  have "run_dypolychord (mock_env 0) 0 0 ?kw (caller_world Map.empty) = Some (Inl AssertionError, w1)"
    using sample_total_checked [OF pre ini fr bd rd mx, of "- 1" 0] by simp
  with len show ?thesis by blast
qed

section \<open>The effect of one pass of the loop\<close>

lemma seq_result:
  assumes "seq m f w = (r, w')"
  obtains (failed) e where "m w = (Inl e, w')" and "r = Inl e"
        | (passed) x w1 where "m w = (Inr x, w1)" and "f x w1 = (r, w')"
  using assms by (auto simp: seq_apply split: prod.splits sum.splits)

lemma same_as_previous_snoc: "same_as_previous (xs @ [n]) = (xs \<noteq> [] \<and> n = last xs)"
proof (cases "xs = []")
  case True
  then show ?thesis by (simp add: same_as_previous_def)
next
  case False
  then have "length xs \<ge> 1" by (cases xs) auto
  with False show ?thesis
    by (auto simp: same_as_previous_def nth_append last_conv_nth)
qed

lemma str_of_pyval_Inr [simp]: "str_of_pyval v = Inr s \<longleftrightarrow> v = PStr s"
  by (cases v) auto

lemma step_output_effect:
  assumes "step_output E L sd st w = (r, w')"
  shows "heap w' = heap w \<and> next_addr w' = next_addr w \<and> invocations w' = invocations w
       \<and> saved w' = saved w
       \<and> (\<forall>brk st'. r = Inr (brk, st') \<longrightarrow>
            (\<exists>out nl fr bd v.
               heap w sd ''file_root'' = Some (PStr fr) \<and> heap w sd ''base_dir'' = Some (PStr bd)
             \<and> process_polychord_stats E fr bd (files w) = Inr out
             \<and> heap w sd ''nlive'' = Some v \<and> int_of_pyval v = Inr nl
             \<and> step_ndead st' = step_ndead st @ [ndead out - nl]
             \<and> outputs_at_resumes st' = (outputs_at_resumes st)(ndead out \<mapsto> out)
             \<and> brk = (step_ndead st \<noteq> [] \<and> ndead out - nl = last (step_ndead st))
             \<and> (brk \<longrightarrow> w' = w)
             \<and> (\<not> brk \<longrightarrow> (\<exists>c. files w (root L @ ''_init.resume'') = Some (File c)
                    \<and> w' = w\<lparr>files := (files w)(step_resume_path (root L) (ndead out - nl) \<mapsto> File c)\<rparr>))))"
  using assms
  by (auto simp: step_output_def prog_apply Let_def same_as_previous_snoc copyfile_def
      step_resume_path_not_init
      split: option.splits sum.splits if_splits node.splits)

lemma step_settings_effect:
  assumes "step_settings L sd st w = (r, w')"
  shows "files w' = files w \<and> invocations w' = invocations w \<and> next_addr w' = next_addr w
       \<and> saved w' = saved w
       \<and> (\<forall>a. a \<noteq> sd \<longrightarrow> heap w' a = heap w a)
       \<and> (\<forall>k. k \<noteq> ''read_resume'' \<and> k \<noteq> ''max_ndead'' \<and> k \<noteq> ''seed'' \<longrightarrow> heap w' sd k = heap w sd k)
       \<and> heap w' sd ''max_ndead'' = Some (PInt ((int (length (step_ndead st)) + 1) * init_step L))
       \<and> heap w' sd ''read_resume'' =
           (if length (step_ndead st) = 1 then Some (PBool True) else heap w sd ''read_resume'')
       \<and> (r = Inr () \<longrightarrow> seed_stepped L (heap w sd) (heap w' sd))"
  using assms
  by (auto simp: step_settings_def prog_apply seed_stepped_def
      split: option.splits sum.splits if_splits)

lemma call_run_func_effect:
  assumes "call_run_func E a w = (r, w')"
  shows "heap w' = heap w \<and> next_addr w' = next_addr w \<and> saved w' = saved w
       \<and> invocations w' = invocations w @ [(a, heap w a)]
       \<and> run_func E (heap w a) (files w) = (r, files w')"
  using assms by (auto simp: call_run_func_apply split: prod.splits)

lemma phaseA_step_effect:
  assumes "phaseA_step E L sd st w = (r, w')"
  shows "next_addr w' = next_addr w \<and> saved w' = saved w
       \<and> (\<forall>a. a \<noteq> sd \<longrightarrow> heap w' a = heap w a)
       \<and> (\<forall>k. k \<noteq> ''read_resume'' \<and> k \<noteq> ''max_ndead'' \<and> k \<noteq> ''seed'' \<longrightarrow> heap w' sd k = heap w sd k)
       \<and> heap w' sd ''max_ndead'' = Some (PInt ((int (length (step_ndead st)) + 1) * init_step L))
       \<and> heap w' sd ''read_resume'' =
           (if length (step_ndead st) = 1 then Some (PBool True) else heap w sd ''read_resume'')
       \<and> (invocations w' = invocations w
            \<or> invocations w' = invocations w @ [(sd, heap w' sd)]
              \<and> seed_stepped L (heap w sd) (heap w' sd))
       \<and> (\<forall>brk st'. r = Inr (brk, st') \<longrightarrow>
             invocations w' = invocations w @ [(sd, heap w' sd)]
           \<and> (\<exists>n. step_ndead st' = step_ndead st @ [n]
                \<and> brk = (step_ndead st \<noteq> [] \<and> n = last (step_ndead st))))"
proof -
  from assms have "seq (step_settings L sd st) (\<lambda>_. seq (call_run_func E sd) (\<lambda>_.
       step_output E L sd st)) w = (r, w')"
    by (simp add: phaseA_step_def)
  then show ?thesis
  proof (cases rule: seq_result)
    case (failed e)
    from step_settings_effect [OF failed(1)] failed(2) show ?thesis by simp
  next
    case (passed x w1)
    note s1 = step_settings_effect [OF passed(1)]
    from passed(2) show ?thesis
    proof (cases rule: seq_result)
      case (failed e)
      from call_run_func_effect [OF failed(1)] s1 failed(2) show ?thesis by simp
    next
      case (passed y w2)
      note s2 = call_run_func_effect [OF passed(1)]
      note s3 = step_output_effect [OF passed(2)]
      have h: "heap w' = heap w1" and i: "invocations w' = invocations w @ [(sd, heap w1 sd)]"
        and n: "next_addr w' = next_addr w" and sv: "saved w' = saved w"
        using s1 s2 s3 by simp_all
      have res: "\<forall>brk st'. r = Inr (brk, st') \<longrightarrow>
           (\<exists>n. step_ndead st' = step_ndead st @ [n]
                \<and> brk = (step_ndead st \<noteq> [] \<and> n = last (step_ndead st)))"
        using s3 by blast
      from s1 h i n sv res show ?thesis by simp
    qed
  qed
qed

lemma phaseA_loop_rule:
  assumes ret: "phaseA_loop E L sd st w = Some (r, w')"
    and inv: "I st w"
    and err: "\<And>st w e w'. I st w \<Longrightarrow> phaseA_step E L sd st w = (Inl e, w') \<Longrightarrow> Q (Inl e) w'"
    and brk: "\<And>st w st' w'. I st w \<Longrightarrow> phaseA_step E L sd st w = (Inr (True, st'), w') \<Longrightarrow> Q (Inr st') w'"
    and cont: "\<And>st w st' w'. I st w \<Longrightarrow> phaseA_step E L sd st w = (Inr (False, st'), w') \<Longrightarrow> I st' w'"
  shows "Q r w'"
proof -
  have "E = E \<and> L = L \<and> sd = sd \<longrightarrow> I st w \<longrightarrow> Q (fst (r, w')) (snd (r, w'))"
  proof (rule phaseA_loop.raw_induct
      [where P = "\<lambda>E' L' sd' st w res. E' = E \<and> L' = L \<and> sd' = sd \<longrightarrow> I st w \<longrightarrow> Q (fst res) (snd res)",
        OF _ ret])
    fix f E' L' sd' st w res
    assume IH: "\<And>E' L' sd' st w res. f E' L' sd' st w = Some res \<Longrightarrow>
        E' = E \<and> L' = L \<and> sd' = sd \<longrightarrow> I st w \<longrightarrow> Q (fst res) (snd res)"
      and eq: "(case phaseA_step E' L' sd' st w of
          (Inl e, w') \<Rightarrow> Some (Inl e, w')
        | (Inr (brk, st'), w') \<Rightarrow> if brk then Some (Inr st', w') else f E' L' sd' st' w') = Some res"
    show "E' = E \<and> L' = L \<and> sd' = sd \<longrightarrow> I st w \<longrightarrow> Q (fst res) (snd res)"
    proof (intro impI)
      assume same: "E' = E \<and> L' = L \<and> sd' = sd" and I: "I st w"
      obtain r1 w1 where step: "phaseA_step E L sd st w = (r1, w1)" by (cases "phaseA_step E L sd st w")
      show "Q (fst res) (snd res)"
      proof (cases r1)
        case (Inl e)
        with eq same step have "res = (Inl e, w1)" by simp
        with err [OF I] step Inl show ?thesis by simp
      next
        case (Inr p)
        obtain b st' where p: "p = (b, st')" by (cases p)
        show ?thesis
        proof (cases b)
          case True
          with eq same step Inr p have "res = (Inr st', w1)" by simp
          with brk [OF I] step Inr p True show ?thesis by simp
        next
          case False
          with eq same step Inr p have "f E L sd st' w1 = Some res" by simp
          moreover from cont [OF I] step Inr p False have "I st' w1" by simp
          ultimately show ?thesis using IH by blast
        qed
      qed
    qed
  qed
  with inv show ?thesis by simp
qed

section \<open>The calls of the sampler in the initial run\<close>

lemma phaseA_step_calls:
  assumes "phaseA_step E L sd st w = (r, w')"
  shows "next_addr w' = next_addr w \<and> (\<forall>a. a \<noteq> sd \<longrightarrow> heap w' a = heap w a)
       \<and> (invocations w' = invocations w \<and> (\<forall>x. r \<noteq> Inr x)
            \<or> invocations w' = invocations w @ [(sd, heap w' sd)]
              \<and> settings_stepped L (length (step_ndead st)) (heap w sd) (heap w' sd))
       \<and> (\<forall>brk st'. r = Inr (brk, st') \<longrightarrow>
             (\<exists>n. step_ndead st' = step_ndead st @ [n]
                \<and> brk = (step_ndead st \<noteq> [] \<and> n = last (step_ndead st))))"
proof -
  from assms have "seq (step_settings L sd st) (\<lambda>_. seq (call_run_func E sd) (\<lambda>_.
       step_output E L sd st)) w = (r, w')"
    by (simp add: phaseA_step_def)
  then show ?thesis
  proof (cases rule: seq_result)
    case (failed e)
    from step_settings_effect [OF failed(1)] failed(2) show ?thesis by simp
  next
    case (passed x w1)
    note s1 = step_settings_effect [OF passed(1)]
    from s1 have st: "settings_stepped L (length (step_ndead st)) (heap w sd) (heap w1 sd)"
      by (simp add: settings_stepped_def)
    from s1 have fr1: "next_addr w1 = next_addr w" "\<forall>a. a \<noteq> sd \<longrightarrow> heap w1 a = heap w a"
      "invocations w1 = invocations w"
      by simp_all
    from passed(2) show ?thesis
    proof (cases rule: seq_result)
      case (failed e)
      note s2 = call_run_func_effect [OF failed(1)]
      from s2 have "heap w' = heap w1" "next_addr w' = next_addr w1"
        "invocations w' = invocations w1 @ [(sd, heap w1 sd)]" by simp_all
      with st fr1 failed(2) show ?thesis by simp
    next
      case (passed y w2)
      note s2 = call_run_func_effect [OF passed(1)]
      note s3 = step_output_effect [OF passed(2)]
      from s2 s3 have "heap w' = heap w1" "next_addr w' = next_addr w1"
        "invocations w' = invocations w1 @ [(sd, heap w1 sd)]" by simp_all
      moreover have "\<forall>brk st'. r = Inr (brk, st') \<longrightarrow>
           (\<exists>n. step_ndead st' = step_ndead st @ [n]
                \<and> brk = (step_ndead st \<noteq> [] \<and> n = last (step_ndead st)))"
        using s3 by blast
      ultimately show ?thesis using st fr1 by simp
    qed
  qed
qed

lemma all_nth_snoc:
  "(\<forall>k<length xs. P k (xs ! k)) \<Longrightarrow> P (length xs) x \<Longrightarrow> \<forall>k<length (xs @ [x]). P k ((xs @ [x]) ! k)"
  by (auto simp: nth_append less_Suc_eq)

lemma phaseA_loop_trace:
  assumes ret: "phaseA_loop E L sd st0 w0 = Some (r, w')"
    and J0: "J (length (step_ndead st0)) (heap w0 sd)"
    and step: "\<And>k d d'. J k d \<Longrightarrow> settings_stepped L k d d' \<Longrightarrow> J (Suc k) d' \<and> P k d'"
  shows "\<exists>new. invocations w' = invocations w0 @ new
       \<and> (\<forall>k<length new. fst (new ! k) = sd \<and> P (length (step_ndead st0) + k) (snd (new ! k)))
       \<and> next_addr w' = next_addr w0 \<and> (\<forall>a. a \<noteq> sd \<longrightarrow> heap w' a = heap w0 a)
       \<and> (\<forall>st. r = Inr st \<longrightarrow> length (step_ndead st) = length (step_ndead st0) + length new
              \<and> J (length (step_ndead st)) (heap w' sd))"
proof -
  define n0 where "n0 = length (step_ndead st0)"
  define good where
    "good = (\<lambda>new. \<forall>k<length new. fst (new ! k) = sd \<and> P (n0 + k) (snd (new ! k)))"
  define frame where
    "frame = (\<lambda>w::world. next_addr w = next_addr w0 \<and> (\<forall>a. a \<noteq> sd \<longrightarrow> heap w a = heap w0 a))"
  define I where
    "I = (\<lambda>(st::loop_state) (w::world). \<exists>new. invocations w = invocations w0 @ new \<and> good new \<and> frame w
       \<and> length (step_ndead st) = n0 + length new \<and> J (length (step_ndead st)) (heap w sd))"
  define Q where
    "Q = (\<lambda>(r::error + loop_state) (w::world). \<exists>new. invocations w = invocations w0 @ new \<and> good new \<and> frame w
       \<and> (\<forall>st. r = Inr st \<longrightarrow> length (step_ndead st) = n0 + length new
              \<and> J (length (step_ndead st)) (heap w sd)))"
  have ext: "good (new @ [(sd, d')])" if "good new" and "P (n0 + length new) d'" for new d'
    using all_nth_snoc [of new "\<lambda>k x. fst x = sd \<and> P (n0 + k) (snd x)" "(sd, d')"] that
    by (simp add: good_def)
  have advance: "\<exists>new. invocations w1 = invocations w0 @ new \<and> good new \<and> frame w1
       \<and> (\<forall>b st'. rr = Inr (b, st') \<longrightarrow> length (step_ndead st') = n0 + length new
              \<and> J (length (step_ndead st')) (heap w1 sd))"
    if I: "I st w" and s: "phaseA_step E L sd st w = (rr, w1)" for st w rr w1
  proof -
    from I obtain new where new: "invocations w = invocations w0 @ new" "good new" "frame w"
      "length (step_ndead st) = n0 + length new" "J (length (step_ndead st)) (heap w sd)"
      unfolding I_def by blast
    note eff = phaseA_step_calls [OF s]
    from eff new(3) have fr: "frame w1" by (simp add: frame_def)
    from eff have len: "\<forall>b st'. rr = Inr (b, st') \<longrightarrow> length (step_ndead st') = Suc (length (step_ndead st))"
      by auto
    from eff consider (none) "invocations w1 = invocations w" "\<forall>x. rr \<noteq> Inr x"
      | (call) "invocations w1 = invocations w @ [(sd, heap w1 sd)]"
        "settings_stepped L (length (step_ndead st)) (heap w sd) (heap w1 sd)"
      by blast
    then show ?thesis
    proof cases
      case none
      with new(1,2) fr show ?thesis by (intro exI [of _ new]) simp
    next
      case call
      from step [OF new(5) call(2)] new(4) have P: "P (n0 + length new) (heap w1 sd)"
        and J: "J (Suc (length (step_ndead st))) (heap w1 sd)" by simp_all
      from ext [OF new(2) P] call(1) new(1,4) fr len J show ?thesis
        by (intro exI [of _ "new @ [(sd, heap w1 sd)]"]) simp
    qed
  qed
  have "Q r w'"
  proof (rule phaseA_loop_rule [where I = I and Q = Q, OF ret])
    have "good []" by (simp add: good_def)
    moreover have "frame w0" by (simp add: frame_def)
    ultimately show "I st0 w0" using J0 by (simp add: I_def n0_def)
  next
    fix st w e w1
    assume "I st w" and "phaseA_step E L sd st w = (Inl e, w1)"
    from advance [OF this] show "Q (Inl e) w1" by (simp add: Q_def)
  next
    fix st w st' w1
    assume "I st w" and "phaseA_step E L sd st w = (Inr (True, st'), w1)"
    from advance [OF this] show "Q (Inr st') w1" by (auto simp: Q_def)
  next
    fix st w st' w1
    assume "I st w" and "phaseA_step E L sd st w = (Inr (False, st'), w1)"
    from advance [OF this] show "I st' w1" by (auto simp: I_def)
  qed
  then show ?thesis
    by (simp add: Q_def good_def frame_def n0_def)
qed

lemma initial_copy_apply:
  "initial_copy L a w =
     (case heap w a ''file_root'' of
        None \<Rightarrow> (Inl KeyError,
          w\<lparr>heap := (heap w)(next_addr w := heap w a), next_addr := Suc (next_addr w)\<rparr>)
      | Some v \<Rightarrow>
          (case str_of_pyval v of
             Inl e \<Rightarrow> (Inl e,
               w\<lparr>heap := (heap w)(next_addr w := heap w a), next_addr := Suc (next_addr w)\<rparr>)
           | Inr fr \<Rightarrow> (Inr (next_addr w),
               w\<lparr>heap := (heap w)(next_addr w :=
                    (heap w a)(''file_root'' \<mapsto> PStr (fr @ ''_init''), ''nlive'' \<mapsto> PInt (ninit L))),
                 next_addr := Suc (next_addr w)\<rparr>)))"
  by (simp add: initial_copy_def prog_apply split: option.splits sum.splits)

lemma initial_run_loop:
  assumes "initial_run E L a g w = Some (r, w')" and "g \<noteq> 0"
  obtains (copy_failed) e where "r = Inl e" and "invocations w' = invocations w"
      and "next_addr w' = Suc (next_addr w)" and "\<forall>b. b \<noteq> next_addr w \<longrightarrow> heap w' b = heap w b"
    | (looped) fr r' where "heap w a ''file_root'' = Some (PStr fr)"
      and "phaseA_loop E L (next_addr w) \<lparr>step_ndead = [], outputs_at_resumes = Map.empty\<rparr>
            (w\<lparr>next_addr := Suc (next_addr w),
                 heap := (heap w)(next_addr w :=
                    (heap w a)(''file_root'' \<mapsto> PStr (fr @ ''_init''), ''nlive'' \<mapsto> PInt (ninit L),
                      ''write_resume'' \<mapsto> PBool True, ''read_resume'' \<mapsto> PBool False))\<rparr>) = Some (r', w')"
      and "r = (case r' of Inl e \<Rightarrow> Inl e | Inr st \<Rightarrow> Inr (next_addr w, Some st))"
proof (cases "heap w a ''file_root''")
  case None
  with assms have "r = Inl KeyError"
    and "w' = w\<lparr>heap := (heap w)(next_addr w := heap w a), next_addr := Suc (next_addr w)\<rparr>"
    by (simp_all add: initial_run_def seqo_apply total_apply initial_copy_apply)
  then show ?thesis by (intro copy_failed [of KeyError]) simp_all
next
  case (Some v)
  show ?thesis
  proof (cases "str_of_pyval v")
    case (Inl e)
    with Some assms have "r = Inl e"
      and "w' = w\<lparr>heap := (heap w)(next_addr w := heap w a), next_addr := Suc (next_addr w)\<rparr>"
      by (simp_all add: initial_run_def seqo_apply total_apply initial_copy_apply)
    then show ?thesis by (intro copy_failed [of e]) simp_all
  next
    case (Inr fr)
    let ?w2 = "w\<lparr>next_addr := Suc (next_addr w),
                 heap := (heap w)(next_addr w :=
                    (heap w a)(''file_root'' \<mapsto> PStr (fr @ ''_init''), ''nlive'' \<mapsto> PInt (ninit L),
                      ''write_resume'' \<mapsto> PBool True, ''read_resume'' \<mapsto> PBool False))\<rparr>"
    from Inr have v: "v = PStr fr" by simp
    from assms Some v obtain r' where "phaseA_loop E L (next_addr w)
          \<lparr>step_ndead = [], outputs_at_resumes = Map.empty\<rparr> ?w2 = Some (r', w')"
      and "r = (case r' of Inl e \<Rightarrow> Inl e | Inr st \<Rightarrow> Inr (next_addr w, Some st))"
      by (auto simp: initial_run_def initial_copy_apply prog_apply
          split: option.splits prod.splits sum.splits)
    with Some v show ?thesis by (intro looped [of fr r']) simp_all
  qed
qed

text \<open>
  C3. When \<open>dynamic_goal\<close> is not 0, the \<open>k\<close>-th call of the sampler in the initial run
  (counting from 0, so after \<open>k\<close> completed steps) is given a dictionary with
  \<open>write_resume\<close> true and \<open>max_ndead = (k + 1) * init_step\<close>. This holds for every
  call of a run that returns, normally or with an error; after a normal return there are
  as many calls as entries of \<open>step_ndead\<close>.
\<close>

theorem increments_capped:
  assumes "initial_run E L a_in dynamic_goal w = Some (r, w')" and "dynamic_goal \<noteq> 0"
  shows "\<exists>new. invocations w' = invocations w @ new
       \<and> (\<forall>k<length new. snd (new ! k) ''write_resume'' = Some (PBool True)
             \<and> snd (new ! k) ''max_ndead'' = Some (PInt ((int k + 1) * init_step L)))
       \<and> (\<forall>sd st. r = Inr (sd, Some st) \<longrightarrow> length new = length (step_ndead st))"
  using assms
proof (cases rule: initial_run_loop)
  case (copy_failed e)
  then show ?thesis by simp
next
  case (looped fr r')
  let ?J = "\<lambda>(k::nat) (d::pydict). d ''write_resume'' = Some (PBool True)"
  let ?P = "\<lambda>(k::nat) (d::pydict). d ''write_resume'' = Some (PBool True)
      \<and> d ''max_ndead'' = Some (PInt ((int k + 1) * init_step L))"
  have "\<exists>new. invocations w' = invocations w @ new
       \<and> (\<forall>k<length new. fst (new ! k) = next_addr w \<and> ?P (0 + k) (snd (new ! k)))
       \<and> next_addr w' = Suc (next_addr w) \<and> (\<forall>a. a \<noteq> next_addr w \<longrightarrow> heap w' a = heap w a)
       \<and> (\<forall>st. r' = Inr st \<longrightarrow> length (step_ndead st) = 0 + length new
              \<and> ?J (length (step_ndead st)) (heap w' (next_addr w)))"
    using phaseA_loop_trace [where J = ?J and P = ?P, OF looped(2)]
    by (simp add: settings_stepped_def)
  then obtain new where new: "invocations w' = invocations w @ new"
    "\<forall>k<length new. ?P k (snd (new ! k))"
    "\<forall>st. r' = Inr st \<longrightarrow> length (step_ndead st) = length new"
    by auto
  from new(3) looped(3) have "\<forall>sd st. r = Inr (sd, Some st) \<longrightarrow> length new = length (step_ndead st)"
    by (cases r') auto
  with new(1,2) show ?thesis by blast
qed

lemmas initial_run_eval =
  initial_run_def initial_copy_def phaseA_step_def step_settings_def step_output_def
  same_as_previous_def prog_apply mock_defs phaseA_loop.simps Let_def step_resume_path_def
  copyfile_def str_int_def str_nat.simps digit_char_def

theorem increments_capped_witness:
  "\<exists>r w'. initial_run (mock_env 0) demo_locals 0 1 (caller_world demo_dict) = Some (r, w')
       \<and> length (invocations w') = 3
       \<and> snd (invocations w' ! 2) ''max_ndead'' = Some (PInt 15)
       \<and> snd (invocations w' ! 2) ''write_resume'' = Some (PBool True)"
proof -
  have "\<exists>r w'. initial_run (mock_env 0) demo_locals 0 1 (caller_world demo_dict) = Some (r, w')
      \<and> length (invocations w') = 3"
    by (simp add: initial_run_eval cong: weak_case_congs)
  then obtain r w' where
    ret: "initial_run (mock_env 0) demo_locals 0 1 (caller_world demo_dict) = Some (r, w')"
    and len: "length (invocations w') = 3"
    by blast
  from increments_capped [OF ret] obtain new where
    new: "invocations w' = invocations (caller_world demo_dict) @ new"
    and all: "\<forall>k<length new. snd (new ! k) ''write_resume'' = Some (PBool True)
             \<and> snd (new ! k) ''max_ndead'' = Some (PInt ((int k + 1) * init_step demo_locals))"
    by auto
  from new have eq: "invocations w' = new" by (simp add: caller_world_def)
  with len all have "snd (new ! 2) ''write_resume'' = Some (PBool True)
             \<and> snd (new ! 2) ''max_ndead'' = Some (PInt ((int 2 + 1) * init_step demo_locals))"
    by simp
  with eq ret len show ?thesis by (simp add: demo_locals_def)
qed

section \<open>The end of the loop\<close>

lemma no_repeat_snoc:
  assumes "no_repeat xs" and "xs \<noteq> [] \<longrightarrow> n \<noteq> last xs"
  shows "no_repeat (xs @ [n])"
  unfolding no_repeat_def
proof (intro allI impI)
  fix j
  assume j: "Suc j < length (xs @ [n])"
  show "(xs @ [n]) ! Suc j \<noteq> (xs @ [n]) ! j"
  proof (cases "Suc j < length xs")
    case True
    with assms(1) show ?thesis by (simp add: no_repeat_def nth_append)
  next
    case False
    with j have sj: "Suc j = length xs" by simp
    then have ne: "xs \<noteq> []" by auto
    from sj have "length xs - 1 = j" by arith
    with last_conv_nth [OF ne] have "xs ! j = last xs" by simp
    with sj assms(2) ne show ?thesis by (simp add: nth_append)
  qed
qed

lemma phaseA_step_returns:
  assumes "phaseA_step E L sd st w = (Inr (brk, st'), w')"
  shows "length (invocations w') = Suc (length (invocations w))"
    and "\<exists>n. step_ndead st' = step_ndead st @ [n]
           \<and> brk = (step_ndead st \<noteq> [] \<and> n = last (step_ndead st))"
  using phaseA_step_calls [OF assms] by auto

lemma phaseA_loop_steps:
  assumes ret: "phaseA_loop E L sd st0 w0 = Some (Inr st', w')"
    and nr: "no_repeat (step_ndead st0)"
  shows "(\<exists>xs n. step_ndead st' = xs @ [n] \<and> xs \<noteq> [] \<and> n = last xs \<and> no_repeat xs)
       \<and> length (invocations w') + length (step_ndead st0)
           = length (invocations w0) + length (step_ndead st')"
proof -
  define I where "I = (\<lambda>(st::loop_state) (w::world). no_repeat (step_ndead st)
      \<and> length (invocations w) + length (step_ndead st0)
           = length (invocations w0) + length (step_ndead st))"
  define Q where "Q = (\<lambda>(r::error + loop_state) (w::world). \<forall>st. r = Inr st \<longrightarrow>
      (\<exists>xs n. step_ndead st = xs @ [n] \<and> xs \<noteq> [] \<and> n = last xs \<and> no_repeat xs)
       \<and> length (invocations w) + length (step_ndead st0)
           = length (invocations w0) + length (step_ndead st))"
  have "Q (Inr st') w'"
  proof (rule phaseA_loop_rule [where I = I and Q = Q, OF ret])
    show "I st0 w0" using nr by (simp add: I_def)
  next
    fix st w e w1
    show "Q (Inl e) w1" by (simp add: Q_def)
  next
    fix st w st1 w1
    assume I: "I st w" and s: "phaseA_step E L sd st w = (Inr (True, st1), w1)"
    from phaseA_step_returns [OF s] obtain n where
      "length (invocations w1) = Suc (length (invocations w))"
      "step_ndead st1 = step_ndead st @ [n]" "step_ndead st \<noteq> []" "n = last (step_ndead st)"
      by auto
    with I show "Q (Inr st1) w1" by (simp add: Q_def I_def)
  next
    fix st w st1 w1
    assume I: "I st w" and s: "phaseA_step E L sd st w = (Inr (False, st1), w1)"
    from phaseA_step_returns [OF s] obtain n where n:
      "length (invocations w1) = Suc (length (invocations w))"
      "step_ndead st1 = step_ndead st @ [n]" "step_ndead st \<noteq> [] \<longrightarrow> n \<noteq> last (step_ndead st)"
      by auto
    from I have "no_repeat (step_ndead st)" by (simp add: I_def)
    from no_repeat_snoc [OF this n(3)] n(1,2) I show "I st1 w1" by (simp add: I_def)
  qed
  then show ?thesis by (simp add: Q_def)
qed

text \<open>
  C2. The entries of \<open>step_ndead\<close> are the dead-point counts read after each call, less
  the number of live points. (1) When \<open>dynamic_goal\<close> is not 0 and the initial run
  returns normally, the last two entries of \<open>step_ndead\<close> are equal and no two
  consecutive entries before them are; the sampler has been called once for each entry.
  (2) In any state of the loop, a pass that returns normally ends the loop if and only if
  the count it appends equals the one before it; the loop then returns at once, and
  otherwise it goes on from the state the pass has left.
\<close>

theorem loop_stops_at_repeat:
  "(initial_run E L a_in dynamic_goal w = Some (Inr (sd, sto), w') \<and> dynamic_goal \<noteq> 0 \<longrightarrow>
      (\<exists>st xs n. sto = Some st \<and> step_ndead st = xs @ [n] \<and> xs \<noteq> [] \<and> n = last xs \<and> no_repeat xs
          \<and> length (invocations w') = length (invocations w) + length (step_ndead st)))
   \<and> (phaseA_step E L sd' st0 w0 = (Inr (brk, st1), w1) \<longrightarrow>
        brk = same_as_previous (step_ndead st1)
      \<and> phaseA_loop E L sd' st0 w0 = (if brk then Some (Inr st1, w1) else phaseA_loop E L sd' st1 w1))"
proof (intro conjI impI)
  assume a: "initial_run E L a_in dynamic_goal w = Some (Inr (sd, sto), w') \<and> dynamic_goal \<noteq> 0"
  then have ret: "initial_run E L a_in dynamic_goal w = Some (Inr (sd, sto), w')"
    and g: "dynamic_goal \<noteq> 0" by simp_all
  from ret g show "\<exists>st xs n. sto = Some st \<and> step_ndead st = xs @ [n] \<and> xs \<noteq> [] \<and> n = last xs
      \<and> no_repeat xs \<and> length (invocations w') = length (invocations w) + length (step_ndead st)"
  proof (cases rule: initial_run_loop)
    case (copy_failed e)
    then show ?thesis by simp
  next
    case (looped fr r')
    from looped(3) obtain st where r': "r' = Inr st" and sto: "sto = Some st"
      by (cases r') auto
    from phaseA_loop_steps [OF looped(2) [unfolded r']] sto show ?thesis
      by (auto simp: no_repeat_def)
  qed
next
  assume s: "phaseA_step E L sd' st0 w0 = (Inr (brk, st1), w1)"
  from phaseA_step_returns(2) [OF s] obtain n where n: "step_ndead st1 = step_ndead st0 @ [n]"
    and b: "brk = (step_ndead st0 \<noteq> [] \<and> n = last (step_ndead st0))"
    by blast
  have "same_as_previous (step_ndead st1) = (step_ndead st0 \<noteq> [] \<and> n = last (step_ndead st0))"
    by (simp only: n same_as_previous_snoc)
  with b show "brk = same_as_previous (step_ndead st1)" by simp
  from s show "phaseA_loop E L sd' st0 w0 = (if brk then Some (Inr st1, w1) else phaseA_loop E L sd' st1 w1)"
    by (subst phaseA_loop.simps) simp
qed

theorem loop_stops_at_repeat_witness:
  "\<exists>sd st w'. initial_run (mock_env 0) demo_locals 0 1 (caller_world demo_dict) = Some (Inr (sd, Some st), w')
       \<and> step_ndead st = [5, 10, 10] \<and> length (invocations w') = 3"
proof -
  have "\<exists>sd sto w'. initial_run (mock_env 0) demo_locals 0 1 (caller_world demo_dict) = Some (Inr (sd, sto), w')
      \<and> (\<exists>st. sto = Some st \<and> step_ndead st = [5, 10, 10])"
    by (simp add: initial_run_eval cong: weak_case_congs)
  then obtain sd st w' where
    ret: "initial_run (mock_env 0) demo_locals 0 1 (caller_world demo_dict) = Some (Inr (sd, Some st), w')"
    and steps: "step_ndead st = [5, 10, 10]"
    by blast
  from loop_stops_at_repeat [of "mock_env 0" demo_locals 0 1 "caller_world demo_dict" sd "Some st" w']
    ret steps
  have "length (invocations w') = length (invocations (caller_world demo_dict)) + 3"
    by auto
  with ret steps show ?thesis by (auto simp: caller_world_def)
qed

section \<open>Quiet programs\<close>

lemma quiet_seq: "quiet m \<Longrightarrow> (\<And>x. quiet (f x)) \<Longrightarrow> quiet (seq m f)"
  unfolding quiet_def
proof (intro allI)
  fix w
  assume m: "\<forall>w. heap (snd (m w)) = heap w \<and> next_addr (snd (m w)) = next_addr w
                \<and> invocations (snd (m w)) = invocations w"
    and f: "\<And>x. \<forall>w. heap (snd (f x w)) = heap w \<and> next_addr (snd (f x w)) = next_addr w
                \<and> invocations (snd (f x w)) = invocations w"
  obtain r w1 where mw: "m w = (r, w1)" by (cases "m w")
  from m mw have 1: "heap w1 = heap w \<and> next_addr w1 = next_addr w \<and> invocations w1 = invocations w"
    by (metis snd_conv)
  show "heap (snd (seq m f w)) = heap w \<and> next_addr (snd (seq m f w)) = next_addr w
                \<and> invocations (snd (seq m f w)) = invocations w"
  proof (cases r)
    case (Inl e)
    with mw 1 show ?thesis by (simp add: seq_apply)
  next
    case (Inr x)
    with mw have "seq m f w = f x w1" by (simp add: seq_apply)
    with f [of x] 1 show ?thesis by simp
  qed
qed

lemma quiet_basic:
  "quiet (ok x)" "quiet (raise e)" "quiet (liftE r)" "quiet (getitem a k)"
  "quiet (with_files g)" "quiet (file_op h)" "quiet (pickle_save name y)" "quiet (try_remove p)"
  by (simp_all add: quiet_def prog_apply split: sum.splits option.splits)

lemma quiet_get: "quiet (get_int a k)" "quiet (get_str a k)"
  by (simp_all add: get_int_def get_str_def quiet_seq quiet_basic)

lemma quiet_if: "quiet m \<Longrightarrow> quiet n \<Longrightarrow> quiet (if c then m else n)"
  by simp

lemma quiet_remove_all: "quiet (remove_all ps)"
  by (induction ps) (simp_all add: quiet_seq quiet_basic)

lemma quiet_tidy_up: "quiet (tidy_up r xs)"
  by (induction xs) (simp_all add: quiet_seq quiet_basic)

lemma quiet_sample_total: "quiet (sample_total E L a init_run)"
  unfolding sample_total_def
  by (intro quiet_seq quiet_if quiet_basic quiet_get)

lemma quiet_stage_resume: "quiet (stage_resume E L sto info)"
proof (cases sto)
  case None
  then show ?thesis by (simp add: stage_resume_def quiet_basic)
next
  case (Some st)
  then show ?thesis
    unfolding stage_resume_def
    by (simp add: quiet_seq quiet_basic)
qed

lemma quiet_allocation: "quiet (allocation E L a g sto)"
proof -
  have rm: "quiet (if g \<noteq> 0 then
            (case sto of None \<Rightarrow> raise UnboundLocalError
             | Some st \<Rightarrow> remove_step_files (root L) (step_ndead st))
          else ok ())"
    by (cases sto) (simp_all add: quiet_basic remove_step_files_def quiet_remove_all)
  show ?thesis
    unfolding allocation_def
    by (intro quiet_seq quiet_basic quiet_get quiet_sample_total quiet_stage_resume rm)
qed

lemma quiet_finish: "quiet (finish L sto info resume)"
proof -
  have 1: "quiet (if peak_start_ind info \<noteq> 0 then
            (case (resume, sto) of
               (Some resume_ndead, Some st) \<Rightarrow>
                 (case outputs_at_resumes st resume_ndead of
                    None \<Rightarrow> raise KeyError
                  | Some out \<Rightarrow> ok (Some (resume_ndead, nlike out)))
             | _ \<Rightarrow> raise UnboundLocalError)
          else ok None)"
    by (auto simp: quiet_basic split: option.splits)
  show ?thesis
    unfolding finish_def
    by (intro quiet_seq quiet_basic quiet_tidy_up 1)
qed

lemma quietD:
  assumes "quiet m" and "m w = (r, w')"
  shows "heap w' = heap w" and "next_addr w' = next_addr w" and "invocations w' = invocations w"
  using assms by (auto simp: quiet_def dest: spec [of _ w])

end
